theory Spec2Isabelle
  imports Main "HOL-Library.Word" "HOL-Library.Signed_Division" "HOL-Library.AList"
    "HOL-Library.Monad_Syntax"
begin

unbundle bit_operations_syntax

section \<open>The data of minuitwrp/truetype.c\<close>

text \<open>
  The embedding follows \<^verbatim>\<open>src/minuitwrp/truetype.c\<close> function by function. C \<^verbatim>\<open>int\<close> and
  \<^verbatim>\<open>long\<close> values are modelled as \<^typ>\<open>int\<close> (pixel widths and heights stay far from the
  machine limits), glyph indices and character codes as \<^typ>\<open>nat\<close>, bytes of a C string as
  8-bit words. A result of type \<open>'a option\<close> is \<open>None\<close> exactly where the C code has no
  result: where it would read or write outside an object or dereference \<^verbatim>\<open>NULL\<close>, and where
  a call does not return. Every function is described as one call made by one thread with
  the mutexes free; the one place where the code locks a mutex that the same thread holds,
  the call of \<^verbatim>\<open>gr_ttf_getMaxFontHeight\<close> in \<^verbatim>\<open>gr_ttf_render_text\<close>, is modelled as such.
\<close>

type_synonym byte = "8 word"
type_synonym addr = nat

definition STRING_CACHE_MAX_ENTRIES :: nat where
  "STRING_CACHE_MAX_ENTRIES = 400"

definition STRING_CACHE_TRUNCATE_ENTRIES :: nat where
  "STRING_CACHE_TRUNCATE_ENTRIES = 150"

definition LONG_MAX :: int where
  "LONG_MAX = 2 ^ 63 - 1"

definition LONG_MIN :: int where
  "LONG_MIN = - (2 ^ 63)"

definition FT_LOAD_DEFAULT :: int where
  "FT_LOAD_DEFAULT = 0"

definition FT_LOAD_RENDER :: int where
  "FT_LOAD_RENDER = 4"

definition FT_PIXEL_MODE_GRAY :: nat where
  "FT_PIXEL_MODE_GRAY = 2"

definition MIN_of :: "int \<Rightarrow> int \<Rightarrow> int" where
  "MIN_of X Y = (if X < Y then X else Y)"

definition MAX_of :: "int \<Rightarrow> int \<Rightarrow> int" where
  "MAX_of X Y = (if X > Y then X else Y)"

subsection \<open>The rasterizer as this file sees it\<close>

record FT_BBox =
  yMin :: int
  yMax :: int

record FT_Bitmap =
  bitmap_rows :: nat
  bitmap_width :: nat
  bitmap_pitch :: int
  bitmap_buffer :: "byte list"
  pixel_mode :: nat

text \<open>
  A glyph object as returned by \<^verbatim>\<open>FT_Get_Glyph\<close>: \<open>advance_x\<close> is \<^verbatim>\<open>root.advance.x\<close> (16.16 fixed
  point), \<open>cbox\<close> is what \<^verbatim>\<open>FT_Glyph_Get_CBox(glyph, FT_GLYPH_BBOX_PIXELS, _)\<close> stores.
\<close>

record FT_BitmapGlyph =
  advance_x :: int
  glyph_left :: int
  glyph_top :: int
  bitmap :: FT_Bitmap
  cbox :: FT_BBox

text \<open>
  The face is the rasterizer collaborator. Each field is one FreeType call of the source:
  \<open>FT_Load_Glyph face idx flags\<close> is the error code of loading glyph \<open>idx\<close> into the slot,
  \<open>FT_Get_Glyph face idx flags\<close> the error code and the glyph copied from the slot loaded that
  way, \<open>FT_Get_Kerning face l r\<close> the \<^verbatim>\<open>delta.x\<close> it stores (26.6 fixed point).
\<close>

record FT_Face =
  FT_Get_Char_Index :: "nat \<Rightarrow> nat"
  FT_HAS_KERNING :: bool
  FT_Get_Kerning :: "nat \<Rightarrow> nat \<Rightarrow> int"
  FT_Load_Glyph :: "nat \<Rightarrow> int \<Rightarrow> int"
  FT_Get_Glyph :: "nat \<Rightarrow> int \<Rightarrow> int \<times> FT_BitmapGlyph"

subsection \<open>The structs of the file\<close>

record TrueTypeFontKey =
  key_size :: int
  key_dpi :: int
  key_path :: string

record TrueTypeCacheEntry =
  bbox :: FT_BBox
  glyph :: FT_BitmapGlyph

record StringCacheKey =
  key_text :: "byte list"
  key_max_width :: int

definition sizeof_GGLSurface :: nat where
  "sizeof_GGLSurface = 32"

definition GGL_PIXEL_FORMAT_A_8 :: nat where
  "GGL_PIXEL_FORMAT_A_8 = 8"

record GGLSurface =
  version :: nat
  width :: int
  height :: int
  stride :: int
  data :: "byte list"
  format :: nat

record StringCacheEntry =
  surface :: GGLSurface
  rendered_len :: int
  key :: StringCacheKey
  prev_entry :: "addr option"
  next_entry :: "addr option"

text \<open>
  \<^verbatim>\<open>cutils/hashmap.h\<close> is a library of the platform: a hashmap is modelled by its contract, a
  list of key/value pairs with at most one pair per key, keys compared by the map's
  \<^verbatim>\<open>equals\<close> callback.
\<close>

type_synonym ('k, 'v) Hashmap = "('k \<times> 'v) list"

definition hashmapGet :: "('k, 'v) Hashmap \<Rightarrow> 'k \<Rightarrow> 'v option" where
  "hashmapGet m k = map_of m k"

definition hashmapPut :: "('k, 'v) Hashmap \<Rightarrow> 'k \<Rightarrow> 'v \<Rightarrow> ('k, 'v) Hashmap" where
  "hashmapPut m k v = AList.update k v m"

definition hashmapRemove :: "('k, 'v) Hashmap \<Rightarrow> 'k \<Rightarrow> ('k, 'v) Hashmap" where
  "hashmapRemove m k = AList.delete k m"

definition hashmapSize :: "('k, 'v) Hashmap \<Rightarrow> nat" where
  "hashmapSize m = length m"

text \<open>
  \<open>entries\<close> and \<open>next_free\<close> are not fields of the C struct: they are the part of the C heap
  that holds the \<^verbatim>\<open>StringCacheEntry\<close> objects this font has allocated (\<^verbatim>\<open>malloc\<close> hands
  out \<open>next_free\<close>, \<^verbatim>\<open>free\<close> removes the object from \<open>entries\<close>).
\<close>

record TrueTypeFont =
  refcount :: int
  font_size :: int
  font_dpi :: int
  max_height :: int
  base :: int
  face :: FT_Face
  glyph_cache :: "(nat, TrueTypeCacheEntry) Hashmap"
  string_cache :: "(StringCacheKey, addr) Hashmap"
  string_cache_head :: "addr option"
  string_cache_tail :: "addr option"
  font_key :: TrueTypeFontKey
  entries :: "addr \<Rightarrow> StringCacheEntry option"
  next_free :: addr

section \<open>Decoding\<close>

definition utf8_to_unicode :: "32 word \<Rightarrow> 32 word \<Rightarrow> 32 word \<Rightarrow> int" where
  "utf8_to_unicode c1 c2 c3 =
     (let unicode = (ucast (push_bit 12 (c1 AND 0x1F)) :: 16 word);
          unicode = unicode OR ucast (push_bit 6 (c2 AND 0x3F));
          unicode = unicode OR ucast (c3 AND 0x3F)
      in uint unicode)"

text \<open>
  A \<^verbatim>\<open>const char *\<close> walking a C string: \<open>Chars bs\<close> points at the bytes \<open>bs\<close> that are left
  before the terminating NUL, \<open>Past_NUL\<close> points behind the terminator, where nothing may be
  read.
\<close>

datatype text_itr = Chars "byte list" | Past_NUL

text \<open>
  A \<^verbatim>\<open>const char *\<close> argument is given as a byte list; the C string it denotes ends before
  the first zero byte, which is what \<^verbatim>\<open>strlen\<close>, \<^verbatim>\<open>strdup\<close> and \<^verbatim>\<open>strcmp\<close> see of it.
\<close>

definition strdup :: "byte list \<Rightarrow> byte list" where
  "strdup s = takeWhile (\<lambda>b. b \<noteq> 0) s"

definition strlen :: "byte list \<Rightarrow> nat" where
  "strlen s = length (strdup s)"

definition c_string :: "byte list \<Rightarrow> text_itr" where
  "c_string s = Chars (strdup s)"

text \<open>\<^verbatim>\<open>*text_itr++\<close>\<close>

fun deref_incr :: "text_itr \<Rightarrow> (byte \<times> text_itr) option" where
  "deref_incr (Chars []) = Some (0, Past_NUL)"
| "deref_incr (Chars (b # bs)) = Some (b, Chars bs)"
| "deref_incr Past_NUL = None"

fun remaining :: "text_itr \<Rightarrow> nat" where
  "remaining (Chars bs) = Suc (length bs)"
| "remaining Past_NUL = 0"

text \<open>
  Lines 372-381 and 572-581, the same text in both loops: the glyph index of the character
  whose first byte \<open>c\<close> has just been read, and the iterator behind the character.
\<close>

definition decode_char_idx :: "FT_Face \<Rightarrow> byte \<Rightarrow> text_itr \<Rightarrow> (nat \<times> text_itr) option" where
  "decode_char_idx fc c text_itr =
     (if c < 0x80 then Some (FT_Get_Char_Index fc (unat c), text_itr)
      else
        case deref_incr text_itr of
          None \<Rightarrow> None
        | Some (c2, text_itr) \<Rightarrow>
            (case deref_incr text_itr of
               None \<Rightarrow> None
             | Some (c3, text_itr) \<Rightarrow>
                 Some (FT_Get_Char_Index fc (nat (utf8_to_unicode (ucast c) (ucast c2) (ucast c3))),
                       text_itr)))"

lemma deref_incr_remaining:
  "deref_incr p = Some (c, q) \<Longrightarrow> remaining q < remaining p"
  by (cases p rule: deref_incr.cases) auto

lemma decode_char_idx_remaining:
  "decode_char_idx fc c p = Some (i, q) \<Longrightarrow> remaining q \<le> remaining p"
  by (auto simp: decode_char_idx_def split: if_splits option.splits
           dest!: deref_incr_remaining)

section \<open>The glyph cache\<close>

definition gr_ttf_glyph_cache_peek :: "TrueTypeFont \<Rightarrow> nat \<Rightarrow> TrueTypeCacheEntry option" where
  "gr_ttf_glyph_cache_peek font char_index = hashmapGet (glyph_cache font) char_index"

definition gr_ttf_glyph_cache_get ::
    "TrueTypeFont \<Rightarrow> nat \<Rightarrow> TrueTypeCacheEntry option \<times> TrueTypeFont" where
  "gr_ttf_glyph_cache_get font char_index =
     (case hashmapGet (glyph_cache font) char_index of
        Some res \<Rightarrow> (Some res, font)
      | None \<Rightarrow>
          if FT_Load_Glyph (face font) char_index FT_LOAD_RENDER \<noteq> 0 then (None, font)
          else
            let (error, g) = FT_Get_Glyph (face font) char_index FT_LOAD_RENDER in
            if error \<noteq> 0 then (None, font)
            else
              let res = \<lparr>bbox = cbox g, glyph = g\<rparr> in
              (Some res, font\<lparr>glyph_cache := hashmapPut (glyph_cache font) char_index res\<rparr>))"

section \<open>Font metrics\<close>

text \<open>One round of the loop over \<^verbatim>\<open>'!'..'~'\<close> of \<^verbatim>\<open>gr_ttf_getMaxFontHeight\<close>.\<close>

definition scan_char :: "TrueTypeFont \<Rightarrow> nat \<Rightarrow> FT_BBox \<Rightarrow> FT_BBox" where
  "scan_char f c bb =
     (let char_idx = FT_Get_Char_Index (face f) c in
      case gr_ttf_glyph_cache_peek f char_idx of
        Some ent \<Rightarrow>
          bb\<lparr>yMin := MIN_of (yMin bb) (yMin (bbox ent)), yMax := MAX_of (yMax bb) (yMax (bbox ent))\<rparr>
      | None \<Rightarrow>
          if FT_Load_Glyph (face f) char_idx FT_LOAD_DEFAULT \<noteq> 0 then bb
          else
            let (error, g) = FT_Get_Glyph (face f) char_idx FT_LOAD_DEFAULT in
            if error \<noteq> 0 then bb
            else bb\<lparr>yMin := MIN_of (yMin bb) (yMin (cbox g)), yMax := MAX_of (yMax bb) (yMax (cbox g))\<rparr>)"

definition scan_range :: "TrueTypeFont \<Rightarrow> FT_BBox" where
  "scan_range f = fold (scan_char f) [33 ..< 127] \<lparr>yMin = LONG_MAX, yMax = LONG_MIN\<rparr>"

definition gr_ttf_getMaxFontHeight :: "TrueTypeFont \<Rightarrow> int \<times> TrueTypeFont" where
  "gr_ttf_getMaxFontHeight f =
     (let f =
        (if max_height f = - 1 then
           let bb = scan_range f;
               bb = (if yMin bb > yMax bb then bb\<lparr>yMin := 0, yMax := 0\<rparr> else bb);
               f = f\<lparr>max_height := yMax bb - yMin bb\<rparr>;
               f = f\<lparr>base := yMax bb\<rparr>;
               f = f\<lparr>max_height := max_height f + font_size f sdiv 4\<rparr>
           in f\<lparr>base := base f + font_size f sdiv 4\<rparr>
         else f)
      in (max_height f, f))"

text \<open>
  The mutex of a font is made by \<^verbatim>\<open>pthread_mutex_init(&res->mutex, 0)\<close> (line 222), with the
  default attributes: a thread that locks it while it holds it does not come back from
  \<^verbatim>\<open>pthread_mutex_lock\<close>, which then has no result. \<^verbatim>\<open>gr_ttf_getMaxFontHeight\<close> locks the mutex
  at line 655 and unlocks it at line 711; the definition above is the call made with the mutex
  free, \<open>gr_ttf_getMaxFontHeight_under m\<close> the call made with the mutex in the state \<open>m\<close>.
\<close>

datatype mutex = Unlocked | Locked

definition pthread_mutex_lock :: "mutex \<Rightarrow> mutex option" where
  "pthread_mutex_lock m = (case m of Unlocked \<Rightarrow> Some Locked | Locked \<Rightarrow> None)"

definition gr_ttf_getMaxFontHeight_under ::
    "mutex \<Rightarrow> TrueTypeFont \<Rightarrow> (int \<times> TrueTypeFont) option" where
  "gr_ttf_getMaxFontHeight_under m f =
     (case pthread_mutex_lock m of
        None \<Rightarrow> None
      | Some m \<Rightarrow> Some (gr_ttf_getMaxFontHeight f))"

section \<open>Compositing\<close>

text \<open>
  \<^verbatim>\<open>memcpy(dest + d, src + s, n)\<close> on two byte arrays; copying no byte touches nothing.
\<close>

definition memcpy :: "byte list \<Rightarrow> int \<Rightarrow> byte list \<Rightarrow> int \<Rightarrow> nat \<Rightarrow> byte list option" where
  "memcpy dest d src s n =
     (if n = 0 then Some dest
      else if 0 \<le> d \<and> d + int n \<le> int (length dest) \<and> 0 \<le> s \<and> s + int n \<le> int (length src)
      then Some (take (nat d) dest @ take n (drop (nat s) src) @ drop (nat d + n) dest)
      else None)"

text \<open>The row loop of \<^verbatim>\<open>gr_ttf_copy_glyph_to_surface\<close>, with the rows still to copy.\<close>

fun copy_rows :: "nat \<Rightarrow> FT_Bitmap \<Rightarrow> int \<Rightarrow> int \<Rightarrow> byte list \<Rightarrow> int \<Rightarrow> byte list option" where
  "copy_rows 0 bm strd src_itr dat dest_itr = Some dat"
| "copy_rows (Suc n) bm strd src_itr dat dest_itr =
     (case memcpy dat dest_itr (bitmap_buffer bm) src_itr (bitmap_width bm) of
        None \<Rightarrow> None
      | Some dat \<Rightarrow> copy_rows n bm strd (src_itr + bitmap_pitch bm) dat (dest_itr + strd))"

definition gr_ttf_copy_glyph_to_surface ::
    "GGLSurface \<Rightarrow> FT_BitmapGlyph \<Rightarrow> int \<Rightarrow> int \<Rightarrow> int \<Rightarrow> (int \<times> GGLSurface) option" where
  "gr_ttf_copy_glyph_to_surface dest g offX offY bs =
     (if pixel_mode (bitmap g) \<noteq> FT_PIXEL_MODE_GRAY then Some (- 1, dest)
      else
        let dest_itr = (offY + bs - glyph_top g) * stride dest + (offX + glyph_left g) in
        case copy_rows (bitmap_rows (bitmap g)) (bitmap g) (stride dest) 0 (data dest) dest_itr of
          None \<Rightarrow> None
        | Some dat \<Rightarrow> Some (0, dest\<lparr>data := dat\<rparr>))"

section \<open>Shaping\<close>

text \<open>
  The first loop of \<^verbatim>\<open>gr_ttf_render_text\<close> (lines 370-401). The result is \<open>max_len\<close>,
  \<open>total_w\<close>, the array \<open>char_idxs\<close> and the font with its glyph cache as the loop leaves them.
\<close>

function render_count ::
    "int \<Rightarrow> text_itr \<Rightarrow> nat \<Rightarrow> int \<Rightarrow> nat \<Rightarrow> nat list \<Rightarrow> TrueTypeFont \<Rightarrow>
       (nat \<times> int \<times> nat list \<times> TrueTypeFont) option" where
  "render_count max_width text_itr max_len total_w prev_idx char_idxs f =
     (case deref_incr text_itr of
        None \<Rightarrow> None
      | Some (c, text_itr) \<Rightarrow>
          if c = 0 then Some (max_len, total_w, char_idxs, f)
          else
            (case decode_char_idx (face f) c text_itr of
               None \<Rightarrow> None
             | Some (char_idx, text_itr) \<Rightarrow>
                 if \<not> max_len < length char_idxs then None
                 else
                   (case gr_ttf_glyph_cache_get f char_idx of
                      (None, f1) \<Rightarrow>
                        render_count max_width text_itr (max_len + 1) total_w char_idx
                          (char_idxs[max_len := char_idx]) f1
                    | (Some ent, f1) \<Rightarrow>
                        let diff = drop_bit 16 (advance_x (glyph ent));
                            diff = (if FT_HAS_KERNING (face f1) \<and> prev_idx \<noteq> 0 \<and> char_idx \<noteq> 0
                                    then diff + drop_bit 6 (FT_Get_Kerning (face f1) prev_idx char_idx)
                                    else diff)
                        in if max_width \<noteq> - 1 \<and> total_w + diff > max_width
                           then Some (max_len, total_w, char_idxs[max_len := char_idx], f1)
                           else render_count max_width text_itr (max_len + 1) (total_w + diff)
                                  char_idx (char_idxs[max_len := char_idx]) f1)))"
  by pat_completeness auto

termination
  by (relation "measure (\<lambda>(mw, p, n, w, pr, cs, f). remaining p)")
     (auto dest!: deref_incr_remaining decode_char_idx_remaining)

declare render_count.simps [simp del]

text \<open>
  The second loop of \<^verbatim>\<open>gr_ttf_render_text\<close> (lines 426-443) over
  \<^verbatim>\<open>char_idxs[0..max_len-1]\<close>; it also hands back the cursor \<open>x\<close> it ends with.
\<close>

fun render_glyphs ::
    "nat list \<Rightarrow> int \<Rightarrow> nat \<Rightarrow> GGLSurface \<Rightarrow> TrueTypeFont \<Rightarrow>
       (int \<times> GGLSurface \<times> TrueTypeFont) option" where
  "render_glyphs [] x prev_idx surf f = Some (x, surf, f)"
| "render_glyphs (char_idx # rest) x prev_idx surf f =
     (let x = (if FT_HAS_KERNING (face f) \<and> prev_idx \<noteq> 0 \<and> char_idx \<noteq> 0
               then x + drop_bit 6 (FT_Get_Kerning (face f) prev_idx char_idx) else x)
      in case gr_ttf_glyph_cache_get f char_idx of
           (None, f1) \<Rightarrow> render_glyphs rest x char_idx surf f1
         | (Some ent, f1) \<Rightarrow>
             (case gr_ttf_copy_glyph_to_surface surf (glyph ent) x 0 (base f1) of
                None \<Rightarrow> None
              | Some (r, surf1) \<Rightarrow>
                  render_glyphs rest (x + drop_bit 16 (advance_x (glyph ent))) char_idx surf1 f1))"

text \<open>
  Lines 403-446 of \<^verbatim>\<open>gr_ttf_render_text\<close>, what follows the first loop. The function is static
  and its one caller is \<^verbatim>\<open>gr_ttf_string_cache_get\<close>, which \<^verbatim>\<open>gr_ttf_measureEx\<close>,
  \<^verbatim>\<open>gr_ttf_maxExW\<close> and \<^verbatim>\<open>gr_ttf_textExWH\<close> call after they have locked the mutex of the font
  (lines 541, 560, 615): the call of \<^verbatim>\<open>gr_ttf_getMaxFontHeight\<close> at line 404 is made with the
  mutex locked.
\<close>

definition render_surface ::
    "GGLSurface \<Rightarrow> nat \<Rightarrow> int \<Rightarrow> nat list \<Rightarrow> TrueTypeFont \<Rightarrow>
       (int \<times> GGLSurface \<times> TrueTypeFont) option" where
  "render_surface surf max_len total_w char_idxs font =
     (case (if max_height font = - 1
            then map_option snd (gr_ttf_getMaxFontHeight_under Locked font)
            else Some font) of
        None \<Rightarrow> None
      | Some font \<Rightarrow>
          if max_height font = - 1 then Some (- 1, surf, font)
          else
            let height = max_height font in
            if total_w * height < 0 then None
            else
              let surf = surf\<lparr>version := sizeof_GGLSurface, width := total_w, height := height,
                              stride := total_w, data := replicate (nat (total_w * height)) 0,
                              format := GGL_PIXEL_FORMAT_A_8\<rparr>
              in (case render_glyphs (take max_len char_idxs) 0 0 surf font of
                    None \<Rightarrow> None
                  | Some (x, surf, font) \<Rightarrow> Some (int max_len, surf, font)))"

definition gr_ttf_render_text ::
    "TrueTypeFont \<Rightarrow> GGLSurface \<Rightarrow> byte list \<Rightarrow> int \<Rightarrow> (int \<times> GGLSurface \<times> TrueTypeFont) option" where
  "gr_ttf_render_text font surf text max_width =
     (case render_count max_width (c_string text) 0 0 0 (replicate (strlen text) 0) font of
        None \<Rightarrow> None
      | Some (max_len, total_w, char_idxs, font) \<Rightarrow>
          render_surface surf max_len total_w char_idxs font)"

section \<open>The string cache\<close>

definition gr_ttf_string_cache_equals :: "StringCacheKey \<Rightarrow> StringCacheKey \<Rightarrow> bool" where
  "gr_ttf_string_cache_equals a b \<longleftrightarrow>
     key_max_width a = key_max_width b \<and> strdup (key_text a) = strdup (key_text b)"

text \<open>
  The key built on the stack from the arguments. Its text is kept up to the terminator, so
  that two keys are equal exactly when \<^const>\<open>gr_ttf_string_cache_equals\<close> says so.
\<close>

definition StringCacheKey_of :: "byte list \<Rightarrow> int \<Rightarrow> StringCacheKey" where
  "StringCacheKey_of text max_width = \<lparr>key_text = strdup text, key_max_width = max_width\<rparr>"

definition gr_ttf_string_cache_peek :: "TrueTypeFont \<Rightarrow> byte list \<Rightarrow> int \<Rightarrow> addr option" where
  "gr_ttf_string_cache_peek font text max_width =
     hashmapGet (string_cache font) (StringCacheKey_of text max_width)"

text \<open>The stores \<^verbatim>\<open>p->next = v\<close> and \<^verbatim>\<open>p->prev = v\<close> through an entry pointer \<open>p\<close>.\<close>

definition set_next :: "TrueTypeFont \<Rightarrow> addr \<Rightarrow> addr option \<Rightarrow> TrueTypeFont option" where
  "set_next font p v =
     (case entries font p of
        None \<Rightarrow> None
      | Some e \<Rightarrow> Some (font\<lparr>entries := (entries font)(p \<mapsto> e\<lparr>next_entry := v\<rparr>)\<rparr>))"

definition set_prev :: "TrueTypeFont \<Rightarrow> addr \<Rightarrow> addr option \<Rightarrow> TrueTypeFont option" where
  "set_prev font p v =
     (case entries font p of
        None \<Rightarrow> None
      | Some e \<Rightarrow> Some (font\<lparr>entries := (entries font)(p \<mapsto> e\<lparr>prev_entry := v\<rparr>)\<rparr>))"

text \<open>
  The loop at lines 521-530, with the number of rounds still to run.
  \<^verbatim>\<open>gr_ttf_freeStringCache\<close> frees the key, the surface and the entry: the entry leaves
  \<open>entries\<close>.
\<close>

fun truncate_entries :: "nat \<Rightarrow> TrueTypeFont \<Rightarrow> TrueTypeFont option" where
  "truncate_entries 0 font = Some font"
| "truncate_entries (Suc n) font =
     do {
       ent \<leftarrow> string_cache_head font;
       e \<leftarrow> entries font ent;
       let font = font\<lparr>string_cache_head := next_entry e\<rparr>;
       h \<leftarrow> string_cache_head font;
       font \<leftarrow> set_prev font h None;
       e \<leftarrow> entries font ent;
       let font = font\<lparr>string_cache := hashmapRemove (string_cache font) (key e)\<rparr>;
       let font = font\<lparr>entries := (entries font)(ent := None)\<rparr>;
       truncate_entries n font
     }"

text \<open>Lines 502-513: the entry \<open>res\<close>, which has a successor, goes to the tail.\<close>

definition move_to_tail :: "TrueTypeFont \<Rightarrow> addr \<Rightarrow> TrueTypeFont option" where
  "move_to_tail font res =
     do {
       e \<leftarrow> entries font res;
       font \<leftarrow> (case prev_entry e of
                 Some p \<Rightarrow> set_next font p (next_entry e)
               | None \<Rightarrow> Some font);
       e \<leftarrow> entries font res;
       n \<leftarrow> next_entry e;
       font \<leftarrow> set_prev font n (prev_entry e);
       e \<leftarrow> entries font res;
       let font = (if prev_entry e = None then font\<lparr>string_cache_head := next_entry e\<rparr>
                   else font);
       font \<leftarrow> set_next font res None;
       font \<leftarrow> set_prev font res (string_cache_tail font);
       e \<leftarrow> entries font res;
       p \<leftarrow> prev_entry e;
       font \<leftarrow> set_next font p (Some res);
       Some (font\<lparr>string_cache_tail := Some res\<rparr>)
     }"

definition zeroed_surface :: GGLSurface where
  "zeroed_surface = \<lparr>version = 0, width = 0, height = 0, stride = 0, data = [], format = 0\<rparr>"

text \<open>
  The result is the entry pointer (\<open>None\<close> for \<^verbatim>\<open>NULL\<close>) and the font as the call leaves it.
\<close>

definition gr_ttf_string_cache_get ::
    "TrueTypeFont \<Rightarrow> byte list \<Rightarrow> int \<Rightarrow> (addr option \<times> TrueTypeFont) option" where
  "gr_ttf_string_cache_get font text max_width =
     (let k = StringCacheKey_of text max_width in
      case hashmapGet (string_cache font) k of
        None \<Rightarrow>
          (case gr_ttf_render_text font zeroed_surface text max_width of
             None \<Rightarrow> None
           | Some (len, surf, font) \<Rightarrow>
               if len < 0 then Some (None, font)
               else
                 do {
                   let res = next_free font;
                   let new_entry = \<lparr>surface = surf, rendered_len = len, key = k,
                                    prev_entry = None, next_entry = None\<rparr>;
                   let font = font\<lparr>entries := (entries font)(res \<mapsto> new_entry),
                                   next_free := Suc res\<rparr>;
                   font \<leftarrow> (case string_cache_tail font of
                             Some t \<Rightarrow>
                               do {
                                 font \<leftarrow> set_prev font res (Some t);
                                 set_next font t (Some res)
                               }
                           | None \<Rightarrow> Some (font\<lparr>string_cache_head := Some res\<rparr>));
                   let font = font\<lparr>string_cache_tail := Some res\<rparr>;
                   Some (Some res, font\<lparr>string_cache := hashmapPut (string_cache font) k res\<rparr>)
                 })
      | Some res \<Rightarrow>
          do {
            e \<leftarrow> entries font res;
            if next_entry e \<noteq> None then
              do {
                font \<leftarrow> move_to_tail font res;
                font \<leftarrow> (if hashmapSize (string_cache font) \<ge> STRING_CACHE_MAX_ENTRIES
                          then truncate_entries STRING_CACHE_TRUNCATE_ENTRIES font
                          else Some font);
                Some (Some res, font)
              }
            else Some (Some res, font)
          })"

section \<open>Measuring and drawing\<close>

definition gr_ttf_measureEx :: "byte list \<Rightarrow> TrueTypeFont \<Rightarrow> (int \<times> TrueTypeFont) option" where
  "gr_ttf_measureEx s font =
     (case gr_ttf_string_cache_get font s (- 1) of
        None \<Rightarrow> None
      | Some (None, font) \<Rightarrow> Some (- 1, font)
      | Some (Some e, font) \<Rightarrow>
          (case entries font e of
             None \<Rightarrow> None
           | Some ent \<Rightarrow> Some (width (surface ent), font)))"

text \<open>The loop at lines 570-597 of \<^verbatim>\<open>gr_ttf_maxExW\<close>; the result is \<open>max_len\<close>.\<close>

function maxExW_loop ::
    "int \<Rightarrow> text_itr \<Rightarrow> nat \<Rightarrow> int \<Rightarrow> nat \<Rightarrow> TrueTypeFont \<Rightarrow> (nat \<times> TrueTypeFont) option" where
  "maxExW_loop max_width s max_len total_w prev_idx f =
     (case deref_incr s of
        None \<Rightarrow> None
      | Some (c, s) \<Rightarrow>
          if c = 0 then Some (max_len, f)
          else
            (case decode_char_idx (face f) c s of
               None \<Rightarrow> None
             | Some (char_idx, s) \<Rightarrow>
                 let total_w = (if FT_HAS_KERNING (face f) \<and> prev_idx \<noteq> 0 \<and> char_idx \<noteq> 0
                                then total_w + drop_bit 6 (FT_Get_Kerning (face f) prev_idx char_idx)
                                else total_w)
                 in if total_w > max_width then Some (max_len, f)
                    else
                      (case gr_ttf_glyph_cache_get f char_idx of
                         (None, f1) \<Rightarrow> maxExW_loop max_width s (max_len + 1) total_w char_idx f1
                       | (Some ent, f1) \<Rightarrow>
                           maxExW_loop max_width s (max_len + 1)
                             (total_w + drop_bit 16 (advance_x (glyph ent))) char_idx f1)))"
  by pat_completeness auto

termination
  by (relation "measure (\<lambda>(mw, p, n, w, pr, f). remaining p)")
     (auto dest!: deref_incr_remaining decode_char_idx_remaining)

declare maxExW_loop.simps [simp del]

definition gr_ttf_maxExW :: "byte list \<Rightarrow> TrueTypeFont \<Rightarrow> int \<Rightarrow> (int \<times> TrueTypeFont) option" where
  "gr_ttf_maxExW s font max_width =
     (case gr_ttf_string_cache_peek font s max_width of
        Some e \<Rightarrow>
          (case entries font e of
             None \<Rightarrow> None
           | Some ent \<Rightarrow> Some (rendered_len ent, font))
      | None \<Rightarrow>
          (case maxExW_loop max_width (c_string s) 0 0 0 font of
             None \<Rightarrow> None
           | Some (max_len, font) \<Rightarrow> Some (if max_len > 0 then int max_len - 1 else 0, font)))"

text \<open>
  The rendering backend is a collaborator: the model keeps the calls made on the
  \<^verbatim>\<open>GGLContext\<close>, in order. \<open>Recti l t r b\<close> draws the rows \<open>t \<le> row < b\<close>.
\<close>

datatype gl_call =
    BindTexture GGLSurface
  | TexEnvi_REPLACE
  | TexGeni_S_ONE_TO_ONE
  | TexGeni_T_ONE_TO_ONE
  | Enable_TEXTURE_2D
  | TexCoord2i int int
  | Recti int int int int

definition gr_ttf_textExWH ::
    "gl_call list \<Rightarrow> int \<Rightarrow> int \<Rightarrow> byte list \<Rightarrow> TrueTypeFont \<Rightarrow> int \<Rightarrow> int \<Rightarrow>
       (int \<times> gl_call list \<times> TrueTypeFont) option" where
  "gr_ttf_textExWH gl x y s font max_width max_height_arg =
     (if max_width \<noteq> - 1 \<and> max_width - x \<le> 0 then Some (0, gl, font)
      else
        let max_width = (if max_width \<noteq> - 1 then max_width - x else max_width) in
        case gr_ttf_string_cache_get font s max_width of
          None \<Rightarrow> None
        | Some (None, font) \<Rightarrow> Some (- 1, gl, font)
        | Some (Some e, font) \<Rightarrow>
            (case entries font e of
               None \<Rightarrow> None
             | Some ent \<Rightarrow>
                 let y_bottom = y + height (surface ent);
                     res = rendered_len ent
                 in if max_height_arg \<noteq> - 1 \<and> max_height_arg < y_bottom \<and> max_height_arg \<le> y
                    then Some (0, gl, font)
                    else
                      let y_bottom = (if max_height_arg \<noteq> - 1 \<and> max_height_arg < y_bottom
                                      then max_height_arg else y_bottom)
                      in Some (res,
                               gl @ [BindTexture (surface ent), TexEnvi_REPLACE,
                                     TexGeni_S_ONE_TO_ONE, TexGeni_T_ONE_TO_ONE, Enable_TEXTURE_2D,
                                     TexCoord2i (- x) (- y),
                                     Recti x y (x + width (surface ent)) y_bottom],
                               font)))"

section \<open>The font registry\<close>

text \<open>
  The FreeType library as \<^verbatim>\<open>gr_ttf_loadFont\<close> sees it: the error code of
  \<^verbatim>\<open>FT_Init_FreeType\<close>, the error code and the face of \<^verbatim>\<open>FT_New_Face\<close> for a path, the
  error code of \<^verbatim>\<open>FT_Set_Char_Size(face, 0, height, dpi, dpi)\<close> and the face as sized by it.
\<close>

record FT_Library =
  FT_Init_FreeType :: int
  FT_New_Face :: "string \<Rightarrow> int \<times> FT_Face"
  FT_Set_Char_Size :: "FT_Face \<Rightarrow> int \<Rightarrow> int \<Rightarrow> int \<times> FT_Face"

datatype ft_call =
    Call_FT_Init_FreeType
  | Call_FT_New_Face string
  | Call_FT_Set_Char_Size int int
  | Call_FT_Done_Face

record FontData =
  ft_library :: bool
  fonts :: "(TrueTypeFontKey, addr) Hashmap option"

text \<open>
  The process: the global \<^verbatim>\<open>font_data\<close>, the \<^verbatim>\<open>TrueTypeFont\<close> objects on the heap
  (\<open>next_font\<close> is what \<^verbatim>\<open>malloc\<close> hands out next) and the calls made on the library's faces
  so far.
\<close>

record process =
  font_data :: FontData
  font_objs :: "addr \<Rightarrow> TrueTypeFont option"
  next_font :: addr
  ft_calls :: "ft_call list"

definition gr_ttf_font_cache_equals :: "TrueTypeFontKey \<Rightarrow> TrueTypeFontKey \<Rightarrow> bool" where
  "gr_ttf_font_cache_equals a b \<longleftrightarrow>
     key_size a = key_size b \<and> key_dpi a = key_dpi b \<and> key_path a = key_path b"

definition new_TrueTypeFont :: "int \<Rightarrow> int \<Rightarrow> FT_Face \<Rightarrow> TrueTypeFontKey \<Rightarrow> TrueTypeFont" where
  "new_TrueTypeFont size_arg dpi fc k =
     \<lparr>refcount = 1, font_size = size_arg, font_dpi = dpi, max_height = - 1, base = - 1, face = fc,
      glyph_cache = [], string_cache = [], string_cache_head = None, string_cache_tail = None,
      font_key = k, entries = Map.empty, next_free = 0\<rparr>"

definition gr_ttf_loadFont ::
    "FT_Library \<Rightarrow> process \<Rightarrow> string \<Rightarrow> int \<Rightarrow> int \<Rightarrow> (addr option \<times> process) option" where
  "gr_ttf_loadFont lib st filename size_arg dpi =
     (let k = \<lparr>key_size = size_arg, key_dpi = dpi, key_path = filename\<rparr>;
          found = (case fonts (font_data st) of
                     None \<Rightarrow> None
                   | Some m \<Rightarrow> hashmapGet m k)
      in case found of
           Some res \<Rightarrow>
             (case font_objs st res of
                None \<Rightarrow> None
              | Some d \<Rightarrow>
                  Some (Some res,
                        st\<lparr>font_objs := (font_objs st)(res \<mapsto> d\<lparr>refcount := refcount d + 1\<rparr>)\<rparr>))
         | None \<Rightarrow>
             if \<not> ft_library (font_data st) \<and> FT_Init_FreeType lib \<noteq> 0
             then Some (None, st\<lparr>ft_calls := ft_calls st @ [Call_FT_Init_FreeType]\<rparr>)
             else
               let st = (if \<not> ft_library (font_data st)
                         then st\<lparr>font_data := (font_data st)\<lparr>ft_library := True\<rparr>,
                                 ft_calls := ft_calls st @ [Call_FT_Init_FreeType]\<rparr>
                         else st);
                   (error, fc) = FT_New_Face lib filename;
                   st = st\<lparr>ft_calls := ft_calls st @ [Call_FT_New_Face filename]\<rparr>
               in if error \<noteq> 0 then Some (None, st)
                  else
                    let (error, fc) = FT_Set_Char_Size lib fc (size_arg * 16) dpi;
                        st = st\<lparr>ft_calls := ft_calls st @ [Call_FT_Set_Char_Size (size_arg * 16) dpi]\<rparr>
                    in if error \<noteq> 0
                       then Some (None, st\<lparr>ft_calls := ft_calls st @ [Call_FT_Done_Face]\<rparr>)
                       else
                         let res = next_font st;
                             d = new_TrueTypeFont size_arg dpi fc k;
                             m = (case fonts (font_data st) of None \<Rightarrow> [] | Some m \<Rightarrow> m)
                         in Some (Some res,
                                  st\<lparr>font_objs := (font_objs st)(res \<mapsto> d),
                                     next_font := Suc res,
                                     font_data := (font_data st)\<lparr>fonts := Some (hashmapPut m k res)\<rparr>\<rparr>))"

text \<open>
  \<^verbatim>\<open>hashmapForEach\<close> with \<^verbatim>\<open>gr_ttf_freeStringCache\<close> and \<^verbatim>\<open>gr_ttf_freeFontCache\<close> frees every
  entry of the two caches, then the maps and the font itself are freed: the font object leaves
  \<open>font_objs\<close> together with every cache entry it holds.
\<close>

definition gr_ttf_freeFont :: "process \<Rightarrow> addr \<Rightarrow> process option" where
  "gr_ttf_freeFont st font =
     (case font_objs st font of
        None \<Rightarrow> None
      | Some d \<Rightarrow>
          let d = d\<lparr>refcount := refcount d - 1\<rparr> in
          if refcount d = 0 then
            (case fonts (font_data st) of
               None \<Rightarrow> None
             | Some m \<Rightarrow>
                 let m = hashmapRemove m (font_key d);
                     fd = (font_data st)\<lparr>fonts := (if hashmapSize m = 0 then None else Some m)\<rparr>
                 in Some (st\<lparr>font_data := fd,
                             ft_calls := ft_calls st @ [Call_FT_Done_Face],
                             font_objs := (font_objs st)(font := None)\<rparr>))
          else Some (st\<lparr>font_objs := (font_objs st)(font \<mapsto> d)\<rparr>))"

section \<open>Shaping in the words of the specification\<close>

text \<open>
  The decoder as the specification describes it: a leading byte below \<^verbatim>\<open>0x80\<close> is one
  character, looked up directly; any other leading byte takes the next two bytes with it and
  the three are combined into the 16-bit code point
  \<^verbatim>\<open>((c1 & 0x1F) << 12) | ((c2 & 0x3F) << 6) | (c3 & 0x3F)\<close>. No character has another length.
  \<open>decode\<close> runs over the bytes of a C string, which a zero byte ends: when the string ends
  one byte after a leading byte from \<^verbatim>\<open>0x80\<close> on, the third byte taken is that zero byte, and
  when it ends with such a leading byte, both bytes taken lie at and behind the zero byte and
  there is no character. \<open>complete\<close> holds of the strings in which every leading byte from
  \<^verbatim>\<open>0x80\<close> on has its two bytes before the end; after the characters of any other string the
  next byte to read lies behind the zero byte.
\<close>

definition code_point :: "byte \<Rightarrow> byte \<Rightarrow> byte \<Rightarrow> 16 word" where
  "code_point c1 c2 c3 =
     push_bit 12 (ucast c1 AND 0x1F) OR push_bit 6 (ucast c2 AND 0x3F) OR (ucast c3 AND 0x3F)"

fun decode :: "FT_Face \<Rightarrow> byte list \<Rightarrow> nat list" where
  "decode fc [] = []"
| "decode fc (c # rest) =
     (if c < 0x80 then FT_Get_Char_Index fc (unat c) # decode fc rest
      else
        (case rest of
           [] \<Rightarrow> []
         | [c2] \<Rightarrow> [FT_Get_Char_Index fc (unat (code_point c c2 0))]
         | c2 # c3 # rest' \<Rightarrow> FT_Get_Char_Index fc (unat (code_point c c2 c3)) # decode fc rest'))"

fun complete :: "byte list \<Rightarrow> bool" where
  "complete [] = True"
| "complete (c # rest) =
     (if c < 0x80 then complete rest
      else (case rest of c2 # c3 # rest' \<Rightarrow> complete rest' | _ \<Rightarrow> False))"

text \<open>
  Shaping as the specification describes it, over the glyph indices of the decoded string:
  \<open>count_glyphs\<close> does for each index what the first loop of \<^verbatim>\<open>gr_ttf_render_text\<close> does for
  a character (lines 382-400), \<open>scan_glyphs\<close> what the loop of \<^verbatim>\<open>gr_ttf_maxExW\<close> does (lines
  582-596). \<open>whole\<close> tells whether the string was complete: if it was not, a loop that comes
  to the end of the indices reads on behind the string and has no result.
\<close>

fun count_glyphs ::
    "int \<Rightarrow> nat list \<Rightarrow> bool \<Rightarrow> nat \<Rightarrow> int \<Rightarrow> nat \<Rightarrow> nat list \<Rightarrow> TrueTypeFont \<Rightarrow>
       (nat \<times> int \<times> nat list \<times> TrueTypeFont) option" where
  "count_glyphs max_width [] whole max_len total_w prev_idx char_idxs f =
     (if whole then Some (max_len, total_w, char_idxs, f) else None)"
| "count_glyphs max_width (char_idx # rest) whole max_len total_w prev_idx char_idxs f =
     (if \<not> max_len < length char_idxs then None
      else
        (case gr_ttf_glyph_cache_get f char_idx of
           (None, f1) \<Rightarrow>
             count_glyphs max_width rest whole (max_len + 1) total_w char_idx
               (char_idxs[max_len := char_idx]) f1
         | (Some ent, f1) \<Rightarrow>
             let diff = drop_bit 16 (advance_x (glyph ent));
                 diff = (if FT_HAS_KERNING (face f1) \<and> prev_idx \<noteq> 0 \<and> char_idx \<noteq> 0
                         then diff + drop_bit 6 (FT_Get_Kerning (face f1) prev_idx char_idx)
                         else diff)
             in if max_width \<noteq> - 1 \<and> total_w + diff > max_width
                then Some (max_len, total_w, char_idxs[max_len := char_idx], f1)
                else count_glyphs max_width rest whole (max_len + 1) (total_w + diff)
                       char_idx (char_idxs[max_len := char_idx]) f1))"

fun scan_glyphs ::
    "int \<Rightarrow> nat list \<Rightarrow> bool \<Rightarrow> nat \<Rightarrow> int \<Rightarrow> nat \<Rightarrow> TrueTypeFont \<Rightarrow>
       (nat \<times> TrueTypeFont) option" where
  "scan_glyphs max_width [] whole max_len total_w prev_idx f =
     (if whole then Some (max_len, f) else None)"
| "scan_glyphs max_width (char_idx # rest) whole max_len total_w prev_idx f =
     (let total_w = (if FT_HAS_KERNING (face f) \<and> prev_idx \<noteq> 0 \<and> char_idx \<noteq> 0
                     then total_w + drop_bit 6 (FT_Get_Kerning (face f) prev_idx char_idx)
                     else total_w)
      in if total_w > max_width then Some (max_len, f)
         else
           (case gr_ttf_glyph_cache_get f char_idx of
              (None, f1) \<Rightarrow> scan_glyphs max_width rest whole (max_len + 1) total_w char_idx f1
            | (Some ent, f1) \<Rightarrow>
                scan_glyphs max_width rest whole (max_len + 1)
                  (total_w + drop_bit 16 (advance_x (glyph ent))) char_idx f1))"

text \<open>
  The two shaping paths on a decoded string: \<open>render_text_decoded\<close> counts the glyphs that fit
  and composites them, \<open>maxExW_decoded\<close> answers from the string cache when it holds the
  string and scans the glyphs otherwise.
\<close>

definition render_text_decoded ::
    "TrueTypeFont \<Rightarrow> GGLSurface \<Rightarrow> nat \<Rightarrow> nat list \<Rightarrow> bool \<Rightarrow> int \<Rightarrow>
       (int \<times> GGLSurface \<times> TrueTypeFont) option" where
  "render_text_decoded font surf len gs whole max_width =
     (case count_glyphs max_width gs whole 0 0 0 (replicate len 0) font of
        None \<Rightarrow> None
      | Some (max_len, total_w, char_idxs, font) \<Rightarrow>
          render_surface surf max_len total_w char_idxs font)"

definition maxExW_decoded ::
    "addr option \<Rightarrow> nat list \<Rightarrow> bool \<Rightarrow> TrueTypeFont \<Rightarrow> int \<Rightarrow> (int \<times> TrueTypeFont) option" where
  "maxExW_decoded cached gs whole font max_width =
     (case cached of
        Some e \<Rightarrow>
          (case entries font e of
             None \<Rightarrow> None
           | Some ent \<Rightarrow> Some (rendered_len ent, font))
      | None \<Rightarrow>
          (case scan_glyphs max_width gs whole 0 0 0 font of
             None \<Rightarrow> None
           | Some (max_len, font) \<Rightarrow> Some (if max_len > 0 then int max_len - 1 else 0, font)))"

section \<open>Notions used in the statements\<close>

text \<open>
  The bounding box the loop of \<^verbatim>\<open>gr_ttf_getMaxFontHeight\<close> takes for the character \<open>c\<close>: the one
  of the cached glyph when there is one, otherwise the one of the glyph probed with
  \<^verbatim>\<open>FT_Load_Glyph(face, idx, 0)\<close>, and none when the probe fails. \<open>range_bboxes\<close> collects them
  over \<^verbatim>\<open>'!'..'~'\<close>.
\<close>

definition char_bbox :: "TrueTypeFont \<Rightarrow> nat \<Rightarrow> FT_BBox option" where
  "char_bbox f c =
     (let char_idx = FT_Get_Char_Index (face f) c in
      case gr_ttf_glyph_cache_peek f char_idx of
        Some ent \<Rightarrow> Some (bbox ent)
      | None \<Rightarrow>
          if FT_Load_Glyph (face f) char_idx FT_LOAD_DEFAULT \<noteq> 0 then None
          else
            let (error, g) = FT_Get_Glyph (face f) char_idx FT_LOAD_DEFAULT in
            if error \<noteq> 0 then None else Some (cbox g))"

definition range_bboxes :: "TrueTypeFont \<Rightarrow> FT_BBox list" where
  "range_bboxes f = List.map_filter (char_bbox f) [33 ..< 127]"

text \<open>The rows covered by the rectangle of the last \<^verbatim>\<open>recti\<close> call.\<close>

definition drawn_rows :: "gl_call list \<Rightarrow> int" where
  "drawn_rows gl = (case rev gl of Recti l t r b # _ \<Rightarrow> b - t | _ \<Rightarrow> 0)"

text \<open>
  The recency list of the string cache. \<open>dll h p as n\<close>: in the heap \<open>h\<close> the entries at the
  addresses \<open>as\<close> are linked in this order, the first with \<open>prev = p\<close> and the last with
  \<open>next = n\<close>; \<open>first_of\<close> and \<open>last_of\<close> are the ends of the list. \<open>payload\<close> is what an entry
  holds apart from its links, and \<open>same_payload\<close> relates two heaps that differ in links only.
\<close>

fun first_of :: "addr list \<Rightarrow> addr option \<Rightarrow> addr option" where
  "first_of [] n = n"
| "first_of (a # as) n = Some a"

fun last_of :: "addr list \<Rightarrow> addr option \<Rightarrow> addr option" where
  "last_of [] p = p"
| "last_of (a # as) p = last_of as (Some a)"

fun dll :: "(addr \<Rightarrow> StringCacheEntry option) \<Rightarrow> addr option \<Rightarrow> addr list \<Rightarrow> addr option \<Rightarrow> bool" where
  "dll h p [] n = True"
| "dll h p (a # as) n =
     (case h a of
        None \<Rightarrow> False
      | Some e \<Rightarrow> prev_entry e = p \<and> next_entry e = first_of as n \<and> dll h (Some a) as n)"

definition payload :: "StringCacheEntry \<Rightarrow> GGLSurface \<times> int \<times> StringCacheKey" where
  "payload e = (surface e, rendered_len e, key e)"

definition same_payload ::
    "(addr \<Rightarrow> StringCacheEntry option) \<Rightarrow> (addr \<Rightarrow> StringCacheEntry option) \<Rightarrow> bool" where
  "same_payload h h' \<longleftrightarrow> (\<forall>c. map_option payload (h' c) = map_option payload (h c))"

text \<open>
  The invariant of the string cache of a font, for the list \<open>as\<close> of its entries from
  \<^verbatim>\<open>string_cache_head\<close> to \<^verbatim>\<open>string_cache_tail\<close>: the entries are linked in this order, the
  hashmap holds exactly these entries, each under its own key, and their addresses have been
  allocated. A font as \<^verbatim>\<open>gr_ttf_loadFont\<close> makes it satisfies it with the empty list, and every
  call of \<^verbatim>\<open>gr_ttf_string_cache_get\<close> keeps it; both are proved below.
\<close>

definition map_inv ::
    "(StringCacheKey, addr) Hashmap \<Rightarrow> (addr \<Rightarrow> StringCacheEntry option) \<Rightarrow> addr list \<Rightarrow> bool" where
  "map_inv m h as \<longleftrightarrow>
     distinct (map fst m) \<and> distinct (map snd m) \<and> snd ` set m = set as
   \<and> (\<forall>(k, a) \<in> set m. map_option key (h a) = Some k)"

definition cache_inv :: "TrueTypeFont \<Rightarrow> addr list \<Rightarrow> bool" where
  "cache_inv font as \<longleftrightarrow>
     distinct as
   \<and> dll (entries font) None as None
   \<and> string_cache_head font = first_of as None
   \<and> string_cache_tail font = last_of as None
   \<and> map_inv (string_cache font) (entries font) as
   \<and> (\<forall>a \<in> set as. a < next_free font)"

text \<open>
  The order of the entries after a hit on the entry \<open>c\<close>, as the specification has it: the
  entry goes to the most recently used end, and when the cache holds
  \<^verbatim>\<open>STRING_CACHE_MAX_ENTRIES\<close> entries the \<^verbatim>\<open>STRING_CACHE_TRUNCATE_ENTRIES\<close> least recently used
  ones go. A hit on the entry that is already the most recently used one changes nothing.
\<close>

definition order_after_hit :: "addr \<Rightarrow> addr list \<Rightarrow> addr list" where
  "order_after_hit c as =
     (if c = last as then as
      else if STRING_CACHE_MAX_ENTRIES \<le> length as
      then drop STRING_CACHE_TRUNCATE_ENTRIES (remove1 c as @ [c])
      else remove1 c as @ [c])"

text \<open>
  The heap after the entry \<open>a\<close> with the successor \<open>b\<close> and the predecessor \<open>pa\<close> has been moved
  behind the tail \<open>t\<close>, and the fields of a font that the string cache, respectively the glyph
  cache and the metrics, do not touch.
\<close>

definition moved_entries ::
    "(addr \<Rightarrow> StringCacheEntry option) \<Rightarrow> addr \<Rightarrow> addr \<Rightarrow> addr \<Rightarrow> addr option
       \<Rightarrow> (addr \<Rightarrow> StringCacheEntry option)" where
  "moved_entries h a b t pa =
     (let h1 = (case pa of None \<Rightarrow> h | Some p \<Rightarrow> h(p \<mapsto> (the (h p))\<lparr>next_entry := Some b\<rparr>));
          h2 = h1(b \<mapsto> (the (h1 b))\<lparr>prev_entry := pa\<rparr>);
          h4 = h2(a \<mapsto> (the (h2 a))\<lparr>next_entry := None, prev_entry := Some t\<rparr>)
      in h4(t \<mapsto> (the (h4 t))\<lparr>next_entry := Some a\<rparr>))"

definition only_cache_changed :: "TrueTypeFont \<Rightarrow> TrueTypeFont \<Rightarrow> bool" where
  "only_cache_changed f f' \<longleftrightarrow>
     f'\<lparr>entries := entries f, string_cache := string_cache f,
        string_cache_head := string_cache_head f, string_cache_tail := string_cache_tail f,
        next_free := next_free f\<rparr> = f"

definition only_glyphs_changed :: "TrueTypeFont \<Rightarrow> TrueTypeFont \<Rightarrow> bool" where
  "only_glyphs_changed f f' \<longleftrightarrow>
     f'\<lparr>glyph_cache := glyph_cache f, max_height := max_height f, base := base f\<rparr> = f"

text \<open>A sequence of calls of \<^verbatim>\<open>gr_ttf_string_cache_get\<close> on one font, with the entries returned.\<close>

fun string_cache_gets ::
    "TrueTypeFont \<Rightarrow> (byte list \<times> int) list \<Rightarrow> (addr option list \<times> TrueTypeFont) option" where
  "string_cache_gets font [] = Some ([], font)"
| "string_cache_gets font ((text, mw) # ks) =
     (case gr_ttf_string_cache_get font text mw of
        None \<Rightarrow> None
      | Some (r, font) \<Rightarrow>
          (case string_cache_gets font ks of
             None \<Rightarrow> None
           | Some (rs, font) \<Rightarrow> Some (r # rs, font)))"

text \<open>
  The handle the registry holds for a key, the invariant of the registry (every registered
  key leads to a live font that carries this key and has a positive reference count, every
  live font is registered under its key, and \<^verbatim>\<open>malloc\<close> has not yet handed out the next
  address), and the process before the first call.
\<close>

definition registered :: "process \<Rightarrow> TrueTypeFontKey \<Rightarrow> addr option" where
  "registered st k = (case fonts (font_data st) of None \<Rightarrow> None | Some m \<Rightarrow> hashmapGet m k)"

definition registry_inv :: "process \<Rightarrow> bool" where
  "registry_inv st \<longleftrightarrow>
     (\<forall>k a. registered st k = Some a \<longrightarrow>
        (\<exists>d. font_objs st a = Some d \<and> font_key d = k \<and> 1 \<le> refcount d))
   \<and> (\<forall>a d. font_objs st a = Some d \<longrightarrow> registered st (font_key d) = Some a)
   \<and> (\<forall>a d. font_objs st a = Some d \<longrightarrow> a < next_font st)"

definition initial_process :: process where
  "initial_process =
     \<lparr>font_data = \<lparr>ft_library = False, fonts = None\<rparr>, font_objs = Map.empty, next_font = 0,
      ft_calls = []\<rparr>"

definition font_key_of :: "string \<Rightarrow> int \<Rightarrow> int \<Rightarrow> TrueTypeFontKey" where
  "font_key_of filename size_arg dpi = \<lparr>key_size = size_arg, key_dpi = dpi, key_path = filename\<rparr>"

section \<open>Example fonts\<close>

text \<open>
  A small face: \<^verbatim>\<open>'a'\<close> is glyph 1, \<^verbatim>\<open>'b'\<close> is glyph 2, which the rasterizer fails to load,
  \<^verbatim>\<open>'c'\<close> is glyph 3, which comes out as a monochrome bitmap, every other character is glyph 0.
  Each glyph that loads is two pixels wide and two high; the pair (1, 1) is kerned by one
  pixel.
\<close>

definition example_glyph :: "nat \<Rightarrow> FT_BitmapGlyph" where
  "example_glyph pm =
     \<lparr>advance_x = 131072, glyph_left = 0, glyph_top = 2,
      bitmap = \<lparr>bitmap_rows = 2, bitmap_width = 1, bitmap_pitch = 1,
                bitmap_buffer = [0xFF, 0x80], pixel_mode = pm\<rparr>,
      cbox = \<lparr>yMin = 0, yMax = 2\<rparr>\<rparr>"

definition example_face :: FT_Face where
  "example_face =
     \<lparr>FT_Get_Char_Index = (\<lambda>c. if c = 97 then 1 else if c = 98 then 2 else if c = 99 then 3 else 0),
      FT_HAS_KERNING = True,
      FT_Get_Kerning = (\<lambda>l r. if l = 1 \<and> r = 1 then 64 else 0),
      FT_Load_Glyph = (\<lambda>i flags. if i = 2 then 6 else 0),
      FT_Get_Glyph = (\<lambda>i flags. (0, example_glyph (if i = 3 then 1 else FT_PIXEL_MODE_GRAY)))\<rparr>"

definition example_key :: TrueTypeFontKey where
  "example_key = \<lparr>key_size = 8, key_dpi = 96, key_path = ''font.ttf''\<rparr>"

text \<open>The font as \<^verbatim>\<open>gr_ttf_loadFont\<close> creates it, and after its metrics have been computed.\<close>

definition example_font :: TrueTypeFont where
  "example_font = new_TrueTypeFont 8 96 example_face example_key"

definition example_font_measured :: TrueTypeFont where
  "example_font_measured = example_font\<lparr>max_height := 4, base := 4\<rparr>"

text \<open>
  The example face with the pair \<^verbatim>\<open>"ab"\<close> kerned by two pixels (128/64); \<open>b_loads\<close> tells
  whether the glyph of \<^verbatim>\<open>'b'\<close> loads.
\<close>

definition kerned_face :: "bool \<Rightarrow> FT_Face" where
  "kerned_face b_loads =
     example_face
       \<lparr>FT_Get_Kerning := (\<lambda>l r. if l = 1 \<and> r = 2 then 128 else 0),
        FT_Load_Glyph := (\<lambda>i flags. if i = 2 \<and> \<not> b_loads then 6 else 0)\<rparr>"

definition kerned_font :: "bool \<Rightarrow> TrueTypeFont" where
  "kerned_font b_loads = example_font_measured\<lparr>face := kerned_face b_loads\<rparr>"

text \<open>
  The measured example font after \<^verbatim>\<open>"a"\<close>, \<^verbatim>\<open>"aa"\<close> and \<^verbatim>\<open>"aaa"\<close> have been rendered into its
  string cache, and the measured example font with the glyph of \<^verbatim>\<open>'a'\<close> in its glyph cache
  and an empty string cache.
\<close>

definition example_cached :: TrueTypeFont where
  "example_cached =
     (case string_cache_gets example_font_measured
             [([0x61], - 1), ([0x61, 0x61], - 1), ([0x61, 0x61, 0x61], - 1)] of
        Some (rs, f) \<Rightarrow> f
      | None \<Rightarrow> example_font_measured)"

definition example_font_warm :: TrueTypeFont where
  "example_font_warm =
     example_font_measured
       \<lparr>glyph_cache := [(1, \<lparr>bbox = cbox (example_glyph FT_PIXEL_MODE_GRAY),
                             glyph = example_glyph FT_PIXEL_MODE_GRAY\<rparr>)]\<rparr>"

text \<open>A face none of whose glyphs load.\<close>

definition broken_face :: FT_Face where
  "broken_face = example_face\<lparr>FT_Load_Glyph := (\<lambda>i flags. 6)\<rparr>"

definition broken_font :: TrueTypeFont where
  "broken_font = new_TrueTypeFont 8 96 broken_face example_key"

text \<open>A library that opens \<^verbatim>\<open>font.ttf\<close> and no other file.\<close>

definition example_library :: FT_Library where
  "example_library =
     \<lparr>FT_Init_FreeType = 0,
      FT_New_Face = (\<lambda>p. if p = ''font.ttf'' then (0, example_face) else (1, broken_face)),
      FT_Set_Char_Size = (\<lambda>fc h dpi. (0, fc))\<rparr>"

section \<open>Properties\<close>

subsection \<open>Decoding\<close>

lemma utf8_to_unicode_code_point:
  "utf8_to_unicode (ucast c1) (ucast c2) (ucast c3) = uint (code_point c1 c2 c3)"
  unfolding utf8_to_unicode_def code_point_def Let_def
  apply (rule arg_cong[where f=uint])
  apply (rule bit_word_eqI)
  apply (auto simp add: bit_simps)
  done

lemma face_glyph_cache_get [simp]: "face (snd (gr_ttf_glyph_cache_get f i)) = face f"
  by (simp add: gr_ttf_glyph_cache_get_def Let_def split: option.splits prod.splits)

lemma face_glyph_cache_get': "gr_ttf_glyph_cache_get f i = (r, f1) \<Longrightarrow> face f1 = face f"
  using face_glyph_cache_get[of f i] by simp

lemma strdup_nonzero: "c \<in> set (strdup s) \<Longrightarrow> c \<noteq> 0"
  by (auto simp: strdup_def dest: set_takeWhileD)

lemma decode_char_idx_low:
  "c < 0x80 \<Longrightarrow> decode_char_idx fc c p = Some (FT_Get_Char_Index fc (unat c), p)"
  by (simp add: decode_char_idx_def)

lemma decode_char_idx_high:
  "\<not> c < 0x80 \<Longrightarrow> decode_char_idx fc c (Chars (c2 # c3 # rest)) =
      Some (FT_Get_Char_Index fc (unat (code_point c c2 c3)), Chars rest)"
  by (simp add: decode_char_idx_def utf8_to_unicode_code_point)

lemma decode_char_idx_short:
  "\<not> c < 0x80 \<Longrightarrow> decode_char_idx fc c (Chars [c2]) =
      Some (FT_Get_Char_Index fc (unat (code_point c c2 0)), Past_NUL)"
  using utf8_to_unicode_code_point[of c c2 0] by (simp add: decode_char_idx_def)

lemma decode_char_idx_end:
  "\<not> c < 0x80 \<Longrightarrow> decode_char_idx fc c (Chars []) = None"
  by (simp add: decode_char_idx_def)

lemma render_count_step:
  assumes "c \<noteq> 0" "decode_char_idx (face f) c (Chars s) = Some (i, q)"
    and IH: "\<And>mw n w p cs f'. face f' = face f \<Longrightarrow>
                 render_count mw q n w p cs f' = count_glyphs mw gs whole n w p cs f'"
  shows "render_count mw (Chars (c # s)) n w p cs f = count_glyphs mw (i # gs) whole n w p cs f"
proof -
  obtain ent f1 where g: "gr_ttf_glyph_cache_get f i = (ent, f1)"
    by (cases "gr_ttf_glyph_cache_get f i")
  then have fc: "face f1 = face f"
    by (rule face_glyph_cache_get')
  show ?thesis
    by (subst render_count.simps) (simp add: assms(1,2) g fc IH Let_def split: option.splits)
qed

lemma render_count_decode:
  "0 \<notin> set s \<Longrightarrow>
     render_count mw (Chars s) n w p cs f =
       count_glyphs mw (decode (face f) s) (complete s) n w p cs f"
proof (induction s arbitrary: mw n w p cs f rule: complete.induct)
  case 1
  show ?case by (subst render_count.simps) simp
next
  case (2 c rest)
  from 2 have c0: "c \<noteq> 0" by auto
  show ?case
  proof (cases "c < 0x80")
    case True
    with 2 have IH: "\<And>mw n w p cs f'. face f' = face f \<Longrightarrow>
        render_count mw (Chars rest) n w p cs f'
          = count_glyphs mw (decode (face f) rest) (complete rest) n w p cs f'"
      by simp
    show ?thesis
      using render_count_step[OF c0 decode_char_idx_low[OF True] IH] True by simp
  next
    case False
    show ?thesis
    proof (cases rest rule: remdups_adj.cases)
      case 1
      then show ?thesis
        using False c0 by (subst render_count.simps) (simp add: decode_char_idx_end)
    next
      case (2 c2)
      have IH: "\<And>mw n w p cs f'. face f' = face f \<Longrightarrow>
          render_count mw Past_NUL n w p cs f' = count_glyphs mw [] False n w p cs f'"
        by (subst render_count.simps) simp
      show ?thesis
        using render_count_step[OF c0 decode_char_idx_short[OF False] IH] False 2 by simp
    next
      case (3 c2 c3 rest')
      with "2.IH"(2)[OF False 3] "2.prems"
      have IH: "\<And>mw n w p cs f'. face f' = face f \<Longrightarrow>
          render_count mw (Chars rest') n w p cs f'
            = count_glyphs mw (decode (face f) rest') (complete rest') n w p cs f'"
        by simp
      show ?thesis
        using render_count_step[OF c0 decode_char_idx_high[OF False] IH] False 3 by simp
    qed
  qed
qed

lemma maxExW_loop_step:
  assumes "c \<noteq> 0" "decode_char_idx (face f) c (Chars s) = Some (i, q)"
    and IH: "\<And>mw n w p f'. face f' = face f \<Longrightarrow>
                 maxExW_loop mw q n w p f' = scan_glyphs mw gs whole n w p f'"
  shows "maxExW_loop mw (Chars (c # s)) n w p f = scan_glyphs mw (i # gs) whole n w p f"
proof -
  obtain ent f1 where g: "gr_ttf_glyph_cache_get f i = (ent, f1)"
    by (cases "gr_ttf_glyph_cache_get f i")
  then have fc: "face f1 = face f"
    by (rule face_glyph_cache_get')
  show ?thesis
    by (subst maxExW_loop.simps) (simp add: assms(1,2) g fc IH Let_def split: option.splits)
qed

lemma maxExW_loop_decode:
  "0 \<notin> set s \<Longrightarrow>
     maxExW_loop mw (Chars s) n w p f = scan_glyphs mw (decode (face f) s) (complete s) n w p f"
proof (induction s arbitrary: mw n w p f rule: complete.induct)
  case 1
  show ?case by (subst maxExW_loop.simps) simp
next
  case (2 c rest)
  from 2 have c0: "c \<noteq> 0" by auto
  show ?case
  proof (cases "c < 0x80")
    case True
    with 2 have IH: "\<And>mw n w p f'. face f' = face f \<Longrightarrow>
        maxExW_loop mw (Chars rest) n w p f'
          = scan_glyphs mw (decode (face f) rest) (complete rest) n w p f'"
      by simp
    show ?thesis
      using maxExW_loop_step[OF c0 decode_char_idx_low[OF True] IH] True by simp
  next
    case False
    show ?thesis
    proof (cases rest rule: remdups_adj.cases)
      case 1
      then show ?thesis
        using False c0 by (subst maxExW_loop.simps) (simp add: decode_char_idx_end)
    next
      case (2 c2)
      have IH: "\<And>mw n w p f'. face f' = face f \<Longrightarrow>
          maxExW_loop mw Past_NUL n w p f' = scan_glyphs mw [] False n w p f'"
        by (subst maxExW_loop.simps) simp
      show ?thesis
        using maxExW_loop_step[OF c0 decode_char_idx_short[OF False] IH] False 2 by simp
    next
      case (3 c2 c3 rest')
      with "2.IH"(2)[OF False 3] "2.prems"
      have IH: "\<And>mw n w p f'. face f' = face f \<Longrightarrow>
          maxExW_loop mw (Chars rest') n w p f'
            = scan_glyphs mw (decode (face f) rest') (complete rest') n w p f'"
        by simp
      show ?thesis
        using maxExW_loop_step[OF c0 decode_char_idx_high[OF False] IH] False 3 by simp
    qed
  qed
qed

lemma strdup_nonzero_list [simp]: "0 \<notin> set s \<Longrightarrow> strdup s = s"
  by (auto simp add: strdup_def takeWhile_eq_all_conv)

lemma face_example_font [simp]: "face example_font = example_face"
  by (simp add: example_font_def new_TrueTypeFont_def)

text \<open>
  C7. Both shaping paths read the bytes of the string through the decoder of the
  specification, and through nothing else: for every font, string and width,
  \<^verbatim>\<open>gr_ttf_render_text\<close> and \<^verbatim>\<open>gr_ttf_maxExW\<close> give what shaping gives on the glyph indices of
  \<open>decode\<close>, in which a leading byte below \<^verbatim>\<open>0x80\<close> is one character looked up directly and
  any other leading byte takes exactly the next two bytes with it, and \<^verbatim>\<open>utf8_to_unicode\<close> is
  the 16-bit code point \<^verbatim>\<open>((c1 & 0x1F) << 12) | ((c2 & 0x3F) << 6) | (c3 & 0x3F)\<close> of its three
  bytes. This includes the strings that end inside a three-byte character, where the bytes
  taken are the terminator and what lies behind it.
\<close>

theorem shaping_paths_decode:
  "gr_ttf_render_text font surf s mw =
     render_text_decoded font surf (strlen s) (decode (face font) (strdup s)) (complete (strdup s)) mw
   \<and> gr_ttf_maxExW s font mw =
       maxExW_decoded (gr_ttf_string_cache_peek font s mw)
         (decode (face font) (strdup s)) (complete (strdup s)) font mw
   \<and> utf8_to_unicode (ucast (c1 :: byte)) (ucast (c2 :: byte)) (ucast (c3 :: byte)) =
       uint (push_bit 12 (ucast c1 AND 0x1F) OR push_bit 6 (ucast c2 AND 0x3F)
               OR (ucast c3 AND 0x3F) :: 16 word)"
proof -
  have z: "0 \<notin> set (strdup s)"
    using strdup_nonzero by blast
  have a: "gr_ttf_render_text font surf s mw =
     render_text_decoded font surf (strlen s) (decode (face font) (strdup s)) (complete (strdup s)) mw"
    by (simp add: gr_ttf_render_text_def render_text_decoded_def c_string_def
          render_count_decode[OF z])
  have b: "gr_ttf_maxExW s font mw =
       maxExW_decoded (gr_ttf_string_cache_peek font s mw)
         (decode (face font) (strdup s)) (complete (strdup s)) font mw"
    by (cases "gr_ttf_string_cache_peek font s mw")
       (simp_all add: gr_ttf_maxExW_def maxExW_decoded_def c_string_def maxExW_loop_decode[OF z])
  have c: "utf8_to_unicode (ucast c1) (ucast c2) (ucast c3) =
       uint (push_bit 12 (ucast c1 AND 0x1F) OR push_bit 6 (ucast c2 AND 0x3F)
               OR (ucast c3 AND 0x3F) :: 16 word)"
    unfolding utf8_to_unicode_code_point code_point_def by (rule refl)
  show ?thesis
    by (rule conjI[OF a conjI[OF b c]])
qed

lemma face_example_font_measured [simp]: "face example_font_measured = example_face"
  by (simp add: example_font_measured_def)

theorem shaping_paths_decode_witness:
  "map_option (\<lambda>(n, surf, f). (n, width surf))
     (gr_ttf_render_text example_font_measured zeroed_surface [0x61, 0xE4, 0xB8, 0xAD, 0x62] (- 1))
     = Some (3, 4)
   \<and> map_option fst (gr_ttf_maxExW [0x61, 0xE4, 0xB8, 0xAD, 0x62] example_font_measured 100) = Some 2
   \<and> map_option fst
       (gr_ttf_render_text example_font_measured zeroed_surface [0x61, 0xE4, 0xB8] (- 1)) = None
   \<and> map_option fst (gr_ttf_maxExW [0x61, 0xE4] example_font_measured 100) = None
   \<and> decode example_face [0x61, 0xE4, 0xB8, 0xAD, 0x62] = [1, 0, 2]
   \<and> decode example_face [0x61, 0xE4, 0xB8] = [1, 0]
   \<and> decode example_face [0x61, 0xE4] = [1]"
proof -
  have e: "decode example_face [0x61, 0xE4, 0xB8, 0xAD, 0x62] = [1, 0, 2]"
    by (simp add: example_face_def code_point_def)
  have f: "decode example_face [0x61, 0xE4, 0xB8] = [1, 0]"
    by (simp add: example_face_def code_point_def)
  have g: "decode example_face [0x61, 0xE4] = [1]"
    by (simp add: example_face_def)
  have a: "map_option (\<lambda>(n, surf, f). (n, width surf))
     (render_text_decoded example_font_measured zeroed_surface 5 [1, 0, 2] True (- 1))
     = Some (3, 4)"
    by code_simp
  have b: "map_option fst
     (maxExW_decoded
        (gr_ttf_string_cache_peek example_font_measured [0x61, 0xE4, 0xB8, 0xAD, 0x62] 100)
        [1, 0, 2] True example_font_measured 100)
     = Some 2"
    by code_simp
  have c: "map_option fst
     (render_text_decoded example_font_measured zeroed_surface 3 [1, 0] False (- 1)) = None"
    by code_simp
  have d: "map_option fst
     (maxExW_decoded (gr_ttf_string_cache_peek example_font_measured [0x61, 0xE4] 100)
        [1] False example_font_measured 100)
     = None"
    by code_simp
  have s5: "strdup [0x61, 0xE4, 0xB8, 0xAD, 0x62 :: byte] = [0x61, 0xE4, 0xB8, 0xAD, 0x62]"
    and s3: "strdup [0x61, 0xE4, 0xB8 :: byte] = [0x61, 0xE4, 0xB8]"
    and s2: "strdup [0x61, 0xE4 :: byte] = [0x61, 0xE4]"
    by simp_all
  have l5: "strlen [0x61, 0xE4, 0xB8, 0xAD, 0x62 :: byte] = 5"
    and l3: "strlen [0x61, 0xE4, 0xB8 :: byte] = 3"
    by (simp_all add: strlen_def)
  have c5: "complete [0x61, 0xE4, 0xB8, 0xAD, 0x62] = True"
    and c3: "complete [0x61, 0xE4, 0xB8] = False"
    and c2: "complete [0x61, 0xE4] = False"
    by simp_all
  have a': "map_option (\<lambda>(n, surf, f). (n, width surf))
     (gr_ttf_render_text example_font_measured zeroed_surface [0x61, 0xE4, 0xB8, 0xAD, 0x62] (- 1))
     = Some (3, 4)"
    unfolding shaping_paths_decode[THEN conjunct1] s5 l5 c5 face_example_font_measured e
    by (rule a)
  have b': "map_option fst (gr_ttf_maxExW [0x61, 0xE4, 0xB8, 0xAD, 0x62] example_font_measured 100)
              = Some 2"
    unfolding shaping_paths_decode[THEN conjunct2, THEN conjunct1] s5 c5
      face_example_font_measured e
    by (rule b)
  have c': "map_option fst
       (gr_ttf_render_text example_font_measured zeroed_surface [0x61, 0xE4, 0xB8] (- 1)) = None"
    unfolding shaping_paths_decode[THEN conjunct1] s3 l3 c3 face_example_font_measured f
    by (rule c)
  have d': "map_option fst (gr_ttf_maxExW [0x61, 0xE4] example_font_measured 100) = None"
    unfolding shaping_paths_decode[THEN conjunct2, THEN conjunct1] s2 c2
      face_example_font_measured g
    by (rule d)
  show ?thesis
    by (intro conjI a' b' c' d' e f g)
qed

subsection \<open>The bounded measure with the unconstrained sentinel\<close>

text \<open>
  C9. When the string cache of a font has no entry for \<open>(s, -1)\<close>, \<^verbatim>\<open>gr_ttf_maxExW(s, font, -1)\<close>
  returns 0 for every string \<open>s\<close>, whatever the advances of its glyphs, and leaves the font as
  it is: the first round of the loop compares \<open>total_w = 0\<close> with \<open>-1\<close> and breaks. The only
  string for which the call does not return is a single byte from \<^verbatim>\<open>0x80\<close> on, for which the
  decoder reads behind the terminator.
\<close>

theorem maxExW_unconstrained_uncached:
  assumes "gr_ttf_string_cache_peek font s (- 1) = None"
  shows "gr_ttf_maxExW s font (- 1) =
           (if (\<exists>c. strdup s = [c] \<and> 0x80 \<le> c) then None else Some (0, font))"
proof (cases "strdup s")
  case Nil
  then show ?thesis using assms
    by (simp add: gr_ttf_maxExW_def c_string_def maxExW_loop.simps)
next
  case (Cons c rest)
  then have c0: "c \<noteq> 0" using strdup_nonzero[of c s] by simp
  have loop: "maxExW_loop (- 1) (Chars (c # rest)) 0 0 0 font =
          (case decode_char_idx (face font) c (Chars rest) of None \<Rightarrow> None
           | Some r \<Rightarrow> Some (0, font))"
    by (subst maxExW_loop.simps) (simp add: c0 split: option.splits)
  have dec: "decode_char_idx (face font) c (Chars rest) = None \<longleftrightarrow> rest = [] \<and> 0x80 \<le> c"
    by (cases rest rule: remdups_adj.cases) (auto simp: decode_char_idx_def not_less)
  show ?thesis
    using assms Cons dec
    by (auto simp add: gr_ttf_maxExW_def c_string_def loop split: option.splits)
qed

theorem maxExW_unconstrained_uncached_witness:
  "gr_ttf_string_cache_peek example_font [0x61, 0x61, 0x63] (- 1) = None
   \<and> drop_bit 16 (advance_x (example_glyph FT_PIXEL_MODE_GRAY)) = 2
   \<and> gr_ttf_maxExW [0x61, 0x61, 0x63] example_font (- 1) = Some (0, example_font)"
proof -
  have p: "gr_ttf_string_cache_peek example_font [0x61, 0x61, 0x63] (- 1) = None"
    by (simp add: gr_ttf_string_cache_peek_def example_font_def new_TrueTypeFont_def hashmapGet_def)
  show ?thesis
    using maxExW_unconstrained_uncached[OF p] p
    by (simp add: example_glyph_def)
qed



subsection \<open>The bounded measure when the whole string fits\<close>

text \<open>
  C2. The claim asks for the number \<open>n\<close> of leading glyphs that fit into \<open>max_width\<close>. For the
  one-glyph string \<^verbatim>\<open>"a"\<close>, whose glyph is two pixels wide, and \<open>max_width = 100\<close>, with nothing
  in the string cache, \<^verbatim>\<open>gr_ttf_maxExW\<close> returns 0: the loop leaves by the end of the string
  with \<open>max_len = 1\<close> and the function returns \<open>max_len - 1\<close>.
\<close>

theorem maxExW_uncached_whole_string_fits:
  "gr_ttf_string_cache_peek example_font_measured [0x61] 100 = None
   \<and> FT_Get_Char_Index (face example_font_measured) 0x61 = 1
   \<and> map_option (\<lambda>(e, f). drop_bit 16 (advance_x (glyph (the e))))
         (Some (gr_ttf_glyph_cache_get example_font_measured 1)) = Some 2
   \<and> map_option fst (gr_ttf_maxExW [0x61] example_font_measured 100) = Some 0"
  by code_simp

text \<open>
  C10. The value of \<^verbatim>\<open>gr_ttf_maxExW\<close> depends on whether the string cache holds an entry: for
  \<^verbatim>\<open>"a"\<close> and \<open>max_width = 100\<close> it is 0 before the string has been rendered and 1 (the entry's
  \<open>rendered_len\<close>) after \<^verbatim>\<open>gr_ttf_string_cache_get\<close> has rendered it.
\<close>

theorem maxExW_cached_differs_from_uncached:
  "map_option fst (gr_ttf_maxExW [0x61] example_font_measured 100) = Some 0
   \<and> (case gr_ttf_string_cache_get example_font_measured [0x61] 100 of
        Some (Some e, f) \<Rightarrow> map_option fst (gr_ttf_maxExW [0x61] f 100)
      | _ \<Rightarrow> None) = Some 1"
  by code_simp

subsection \<open>Clipping to a height\<close>

text \<open>
  C5, as amended. \<open>max_height\<close> is the row at which the drawn rectangle ends, not a number of
  rows: when the string cache yields an entry and \<open>max_height\<close> is not \<open>-1\<close> and lies above
  \<open>y\<close> + the height of the surface, then for \<open>max_height \<le> y\<close> nothing is drawn and 0 is
  returned, and otherwise the rectangle runs from row \<open>y\<close> to row \<open>max_height\<close>, which is
  \<open>max_height - y\<close> rows from the top of the string.
\<close>

theorem textExWH_clip:
  assumes "max_width = - 1 \<or> 0 < max_width - x"
    and "gr_ttf_string_cache_get font s (if max_width \<noteq> - 1 then max_width - x else max_width)
           = Some (Some e, font')"
    and "entries font' e = Some ent"
    and "mh \<noteq> - 1" and "mh < y + height (surface ent)"
  shows "gr_ttf_textExWH gl x y s font max_width mh =
           (if mh \<le> y then Some (0, gl, font')
            else Some (rendered_len ent,
                       gl @ [BindTexture (surface ent), TexEnvi_REPLACE, TexGeni_S_ONE_TO_ONE,
                             TexGeni_T_ONE_TO_ONE, Enable_TEXTURE_2D, TexCoord2i (- x) (- y),
                             Recti x y (x + width (surface ent)) mh],
                       font'))
         \<and> (mh > y \<longrightarrow>
              map_option (\<lambda>(r, gl', f). drawn_rows gl') (gr_ttf_textExWH gl x y s font max_width mh)
                = Some (mh - y))"
  using assms by (auto simp: gr_ttf_textExWH_def Let_def drawn_rows_def)

theorem textExWH_clip_witness:
  "\<exists>e font' ent.
      gr_ttf_string_cache_get example_font_measured [0x61] (- 1) = Some (Some e, font')
    \<and> entries font' e = Some ent \<and> height (surface ent) = 4 \<and> (3::int) \<noteq> - 1 \<and> (3::int) < 1 + 4
    \<and> gr_ttf_textExWH [] 0 1 [0x61] example_font_measured (- 1) 3 =
          Some (1, [BindTexture (surface ent), TexEnvi_REPLACE, TexGeni_S_ONE_TO_ONE,
                    TexGeni_T_ONE_TO_ONE, Enable_TEXTURE_2D, TexCoord2i 0 (- 1),
                    Recti 0 1 2 3], font')
    \<and> map_option (\<lambda>(r, gl', f). drawn_rows gl')
          (gr_ttf_textExWH [] 0 1 [0x61] example_font_measured (- 1) 3) = Some 2"
proof -
  have "case gr_ttf_string_cache_get example_font_measured [0x61] (- 1) of
          Some (Some e, f') \<Rightarrow>
            (case entries f' e of
               Some ent \<Rightarrow> height (surface ent) = 4 \<and> width (surface ent) = 2
                             \<and> rendered_len ent = 1
             | None \<Rightarrow> False)
        | _ \<Rightarrow> False"
    by code_simp
  then obtain e f' ent where
    g: "gr_ttf_string_cache_get example_font_measured [0x61] (- 1) = Some (Some e, f')"
    and en: "entries f' e = Some ent"
    and h: "height (surface ent) = 4" "width (surface ent) = 2" "rendered_len ent = 1"
    by (auto split: option.splits prod.splits)
  have g': "gr_ttf_string_cache_get example_font_measured [0x61]
              (if (- 1::int) \<noteq> - 1 then - 1 - 0 else - 1) = Some (Some e, f')"
    using g by simp
  have lt: "(3::int) < 1 + height (surface ent)"
    using h by simp
  from textExWH_clip[of "- 1" 0 example_font_measured "[0x61]" e f' ent 3 1 "[]", OF _ g' en _ lt]
  show ?thesis
    using g en h by (simp add: drawn_rows_def)
qed

text \<open>
  The claim as stated fails: with \<open>y = 1\<close>, a surface of height 4 and \<open>max_height = 3 < 4\<close> the
  rectangle covers the rows 1 and 2, two rows and not three.
\<close>

theorem textExWH_rows_counterexample:
  "map_option (\<lambda>(r, gl, f). (r, map_option (height \<circ> surface) (entries f 0), gl, drawn_rows gl))
     (gr_ttf_textExWH [] 0 1 [0x61] example_font_measured (- 1) 3)
   = Some (1, Some 4,
           [BindTexture \<lparr>version = 32, width = 2, height = 4, stride = 2,
                          data = [0, 0, 0, 0, 0xFF, 0, 0x80, 0], format = 8\<rparr>,
            TexEnvi_REPLACE, TexGeni_S_ONE_TO_ONE, TexGeni_T_ONE_TO_ONE, Enable_TEXTURE_2D,
            TexCoord2i 0 (- 1), Recti 0 1 2 3],
           2)
   \<and> (3::int) < 4 \<and> (2::int) \<noteq> 3"
  by code_simp

subsection \<open>Font metrics\<close>

lemma scan_char_char_bbox:
  "scan_char f c bb =
     (case char_bbox f c of
        None \<Rightarrow> bb
      | Some b \<Rightarrow> bb\<lparr>yMin := min (yMin bb) (yMin b), yMax := max (yMax bb) (yMax b)\<rparr>)"
  by (auto simp: scan_char_def char_bbox_def Let_def MIN_of_def MAX_of_def min_def max_def
           split: option.splits prod.splits)

lemma fold_scan_char:
  "fold (scan_char f) cs bb =
     \<lparr>yMin = fold min (map yMin (List.map_filter (char_bbox f) cs)) (yMin bb),
      yMax = fold max (map yMax (List.map_filter (char_bbox f) cs)) (yMax bb)\<rparr>"
proof (induction cs arbitrary: bb)
  case Nil
  show ?case by (simp add: List.map_filter_simps)
next
  case (Cons c cs)
  have "fold (scan_char f) (c # cs) bb = fold (scan_char f) cs (scan_char f c bb)"
    by simp
  also note Cons[of "scan_char f c bb"]
  finally show ?case
    by (cases "char_bbox f c")
       (simp_all add: scan_char_char_bbox[of f c bb] List.map_filter_simps min.commute max.commute)
qed

lemma scan_range_Min_Max:
  "scan_range f =
     \<lparr>yMin = Min (insert LONG_MAX (yMin ` set (range_bboxes f))),
      yMax = Max (insert LONG_MIN (yMax ` set (range_bboxes f)))\<rparr>"
  unfolding scan_range_def range_bboxes_def fold_scan_char
  by (simp add: Min.set_eq_fold[symmetric] Max.set_eq_fold[symmetric])

lemma Min_insert_upper:
  fixes S :: "int set"
  assumes "finite S" "S \<noteq> {}" "\<forall>x\<in>S. x \<le> u"
  shows "Min (insert u S) = Min S"
proof -
  have "Min S \<le> u" using assms by (meson Min_in)
  then show ?thesis using assms by (simp add: min_absorb2)
qed

lemma Max_insert_lower:
  fixes S :: "int set"
  assumes "finite S" "S \<noteq> {}" "\<forall>x\<in>S. l \<le> x"
  shows "Max (insert l S) = Max S"
proof -
  have "l \<le> Max S" using assms by (meson Max_in)
  then show ?thesis using assms by (simp add: max_absorb2)
qed

lemma sdiv_4_nonneg: "0 \<le> (k::int) \<Longrightarrow> 0 \<le> k sdiv 4"
  by (simp add: signed_divide_int_def sgn_if)

lemma getMaxFontHeight_computed:
  "max_height g \<noteq> - 1 \<Longrightarrow> gr_ttf_getMaxFontHeight g = (max_height g, g)"
  by (simp add: gr_ttf_getMaxFontHeight_def)

lemma getMaxFontHeight_first:
  assumes "max_height f = - 1" "scan_range f = \<lparr>yMin = lo, yMax = hi\<rparr>"
  shows "gr_ttf_getMaxFontHeight f =
           (if lo > hi
            then (font_size f sdiv 4, f\<lparr>max_height := font_size f sdiv 4, base := font_size f sdiv 4\<rparr>)
            else (hi - lo + font_size f sdiv 4,
                  f\<lparr>max_height := hi - lo + font_size f sdiv 4, base := hi + font_size f sdiv 4\<rparr>))"
  using assms by (simp add: gr_ttf_getMaxFontHeight_def Let_def)

lemma getMaxFontHeight_first_le:
  assumes "max_height f = - 1" "scan_range f = \<lparr>yMin = lo, yMax = hi\<rparr>" "lo \<le> hi"
  shows "gr_ttf_getMaxFontHeight f =
           (hi - lo + font_size f sdiv 4,
            f\<lparr>max_height := hi - lo + font_size f sdiv 4, base := hi + font_size f sdiv 4\<rparr>)"
  using assms by (simp add: getMaxFontHeight_first)

text \<open>
  C6, as amended. On the first call (\<open>max_height = -1\<close>) \<^verbatim>\<open>gr_ttf_getMaxFontHeight\<close> takes
  \<open>y_min\<close> and \<open>y_max\<close> as the least \<open>yMin\<close> and the greatest \<open>yMax\<close> of the bounding boxes found
  for \<^verbatim>\<open>'!'..'~'\<close>, both 0 when no glyph of the range loads, sets
  \<open>max_height = y_max - y_min + size/4\<close> and \<open>base = y_max + size/4\<close> and changes nothing else; so
  with no glyph both values are the padding \<open>size/4\<close>. A later call returns the stored value and
  changes nothing (for a size that is not negative, so that the stored value is not \<open>-1\<close>).
\<close>

theorem getMaxFontHeight_metrics:
  assumes wf: "\<forall>b\<in>set (range_bboxes f). LONG_MIN \<le> yMin b \<and> yMin b \<le> yMax b \<and> yMax b \<le> LONG_MAX"
  shows "let bbs = range_bboxes f;
             y_min = (if bbs = [] then 0 else Min (yMin ` set bbs));
             y_max = (if bbs = [] then 0 else Max (yMax ` set bbs));
             h = y_max - y_min + font_size f sdiv 4;
             f' = f\<lparr>max_height := h, base := y_max + font_size f sdiv 4\<rparr>
         in gr_ttf_getMaxFontHeight f = (if max_height f = - 1 then (h, f') else (max_height f, f))
          \<and> (0 \<le> font_size f \<longrightarrow> gr_ttf_getMaxFontHeight f' = (h, f'))"
proof -
  define y_min where "y_min = (if range_bboxes f = [] then 0 else Min (yMin ` set (range_bboxes f)))"
  define y_max where "y_max = (if range_bboxes f = [] then 0 else Max (yMax ` set (range_bboxes f)))"
  define h where "h = y_max - y_min + font_size f sdiv 4"
  define f' where "f' = f\<lparr>max_height := h, base := y_max + font_size f sdiv 4\<rparr>"
  have le: "y_min \<le> y_max"
    and first: "max_height f = - 1 \<Longrightarrow> gr_ttf_getMaxFontHeight f = (h, f')"
  proof -
    show "y_min \<le> y_max"
    proof (cases "range_bboxes f = []")
      case True
      then show ?thesis by (simp add: y_min_def y_max_def)
    next
      case False
      then obtain b where b: "b \<in> set (range_bboxes f)"
        by (cases "range_bboxes f") auto
      have "Min (yMin ` set (range_bboxes f)) \<le> yMin b" using b by simp
      also have "yMin b \<le> yMax b" using wf b by blast
      also have "yMax b \<le> Max (yMax ` set (range_bboxes f))" using b by simp
      finally show ?thesis using False by (simp add: y_min_def y_max_def)
    qed
    assume m: "max_height f = - 1"
    show "gr_ttf_getMaxFontHeight f = (h, f')"
    proof (cases "range_bboxes f = []")
      case True
      then have s: "scan_range f = \<lparr>yMin = LONG_MAX, yMax = LONG_MIN\<rparr>"
        by (simp add: scan_range_Min_Max)
      show ?thesis
        using True
        by (simp add: getMaxFontHeight_first[OF m s] LONG_MAX_def LONG_MIN_def
              h_def f'_def y_min_def y_max_def)
    next
      case False
      let ?S = "yMin ` set (range_bboxes f)" and ?T = "yMax ` set (range_bboxes f)"
      have ne: "?S \<noteq> {}" "?T \<noteq> {}" "finite ?S" "finite ?T"
        using False by auto
      have mn: "Min (insert LONG_MAX ?S) = Min ?S"
      proof (rule Min_insert_upper[OF ne(3) ne(1)])
        show "\<forall>x\<in>?S. x \<le> LONG_MAX" using wf by fastforce
      qed
      have mx: "Max (insert LONG_MIN ?T) = Max ?T"
      proof (rule Max_insert_lower[OF ne(4) ne(2)])
        show "\<forall>x\<in>?T. LONG_MIN \<le> x" using wf by fastforce
      qed
      have s: "scan_range f = \<lparr>yMin = Min ?S, yMax = Max ?T\<rparr>"
        by (simp add: scan_range_Min_Max mn mx)
      have "Min ?S \<le> Max ?T"
        using \<open>y_min \<le> y_max\<close> unfolding y_min_def y_max_def if_not_P[OF False] .
      from getMaxFontHeight_first_le[OF m s this] show ?thesis
        unfolding h_def f'_def y_min_def y_max_def if_not_P[OF False] .
    qed
  qed
  have cached: "0 \<le> font_size f \<Longrightarrow> gr_ttf_getMaxFontHeight f' = (h, f')"
  proof -
    assume "0 \<le> font_size f"
    then have "0 \<le> h"
      using le sdiv_4_nonneg[of "font_size f"] by (simp add: h_def)
    then have "max_height f' \<noteq> - 1"
      by (simp add: f'_def)
    from getMaxFontHeight_computed[OF this] show ?thesis
      by (simp add: f'_def)
  qed
  have "gr_ttf_getMaxFontHeight f = (if max_height f = - 1 then (h, f') else (max_height f, f))
          \<and> (0 \<le> font_size f \<longrightarrow> gr_ttf_getMaxFontHeight f' = (h, f'))"
    using first cached getMaxFontHeight_computed[of f] by simp
  then show ?thesis
    unfolding Let_def f'_def h_def y_max_def y_min_def .
qed

theorem getMaxFontHeight_metrics_witness:
  "range_bboxes example_font = replicate 93 \<lparr>yMin = 0, yMax = 2\<rparr>
   \<and> gr_ttf_getMaxFontHeight example_font = (4, example_font_measured)
   \<and> gr_ttf_getMaxFontHeight example_font_measured = (4, example_font_measured)"
proof -
  have r: "range_bboxes example_font = replicate 93 \<lparr>yMin = 0, yMax = 2\<rparr>"
    by code_simp
  have wf: "\<forall>b\<in>set (range_bboxes example_font).
              LONG_MIN \<le> yMin b \<and> yMin b \<le> yMax b \<and> yMax b \<le> LONG_MAX"
    by (simp add: r LONG_MIN_def LONG_MAX_def)
  have m: "max_height example_font = - 1" "font_size example_font = 8"
    by (simp_all add: example_font_def new_TrueTypeFont_def)
  show ?thesis
    using getMaxFontHeight_metrics[OF wf] r
    by (simp add: Let_def m example_font_measured_def signed_divide_int_def)
qed

text \<open>
  The claim as stated fails: for a font of size 8 none of whose glyphs load, both values are
  2 and not 0.
\<close>

theorem getMaxFontHeight_no_glyph_counterexample:
  "range_bboxes broken_font = []
   \<and> fst (gr_ttf_getMaxFontHeight broken_font) = 2
   \<and> base (snd (gr_ttf_getMaxFontHeight broken_font)) = 2"
  by code_simp


subsection \<open>Glyphs that fail\<close>

lemmas example_defs = example_font_measured_def example_font_def new_TrueTypeFont_def
  example_face_def example_glyph_def FT_PIXEL_MODE_GRAY_def FT_LOAD_RENDER_def

text \<open>
  C8. The two loops of \<^verbatim>\<open>gr_ttf_render_text\<close> do not skip a glyph that fails to load in the
  same way: the counting loop adds the kerning of a pair to \<open>total_w\<close> only when the second
  glyph of the pair has loaded (lines 384-398), the compositing loop moves the cursor by the
  kerning before it asks for the glyph (lines 429-433). In \<open>kerned_font False\<close> the glyph of
  \<^verbatim>\<open>'b'\<close> fails to load, \<^verbatim>\<open>gr_ttf_glyph_cache_get\<close> returns \<^verbatim>\<open>NULL\<close> for it and caches nothing,
  and the pair \<^verbatim>\<open>"ab"\<close> is kerned by two pixels. For \<^verbatim>\<open>"aba"\<close> the counting loop counts three
  glyphs and a width of 4, so the surface has 4 x 4 = 16 bytes, and the compositing loop
  copies the second \<^verbatim>\<open>'a'\<close> at \<open>x = 4\<close>: the second row of the glyph lies behind the surface,
  and the call has no defined result. When the glyph of \<^verbatim>\<open>'b'\<close> loads, the same string
  renders, 8 pixels wide.
\<close>

theorem failed_glyph_kerning_overruns_surface:
  "fst (gr_ttf_glyph_cache_get (kerned_font False) 2) = None
   \<and> map fst (glyph_cache (snd (gr_ttf_glyph_cache_get (kerned_font False) 2))) = []
   \<and> map_option (\<lambda>(max_len, total_w, char_idxs, f). (max_len, total_w, char_idxs))
        (render_count (- 1) (c_string [0x61, 0x62, 0x61]) 0 0 0 [0, 0, 0] (kerned_font False))
       = Some (3, 4, [1, 2, 1])
   \<and> map_option fst
        (gr_ttf_copy_glyph_to_surface
           \<lparr>version = 32, width = 4, height = 4, stride = 4, data = replicate 16 0, format = 8\<rparr>
           (example_glyph FT_PIXEL_MODE_GRAY) 4 0 4) = None
   \<and> map_option fst
        (gr_ttf_render_text (kerned_font False) zeroed_surface [0x61, 0x62, 0x61] (- 1)) = None
   \<and> map_option (\<lambda>(n, surf, f). (n, width surf))
        (gr_ttf_render_text (kerned_font True) zeroed_surface [0x61, 0x62, 0x61] (- 1))
       = Some (3, 8)"
  by code_simp

subsection \<open>The font registry\<close>

lemma registry_inv_initial: "registry_inv initial_process"
  by (simp add: registry_inv_def initial_process_def registered_def)

lemma loadFont_hit:
  assumes "registered st (font_key_of filename sz dpi) = Some h" "font_objs st h = Some d"
  shows "gr_ttf_loadFont lib st filename sz dpi =
           Some (Some h, st\<lparr>font_objs := (font_objs st)(h \<mapsto> d\<lparr>refcount := refcount d + 1\<rparr>)\<rparr>)"
  using assms
  by (simp add: gr_ttf_loadFont_def registered_def font_key_of_def Let_def split: option.splits)

lemma loadFont_miss:
  assumes "registered st (font_key_of filename sz dpi) = None"
  shows "gr_ttf_loadFont lib st filename sz dpi =
     (if \<not> ft_library (font_data st) \<and> FT_Init_FreeType lib \<noteq> 0
      then Some (None, st\<lparr>ft_calls := ft_calls st @ [Call_FT_Init_FreeType]\<rparr>)
      else
        let calls = ft_calls st @ (if ft_library (font_data st) then [] else [Call_FT_Init_FreeType])
                      @ [Call_FT_New_Face filename];
            st1 = st\<lparr>font_data := (font_data st)\<lparr>ft_library := True\<rparr>\<rparr>
        in if fst (FT_New_Face lib filename) \<noteq> 0 then Some (None, st1\<lparr>ft_calls := calls\<rparr>)
           else
             let calls = calls @ [Call_FT_Set_Char_Size (sz * 16) dpi];
                 sized = FT_Set_Char_Size lib (snd (FT_New_Face lib filename)) (sz * 16) dpi
             in if fst sized \<noteq> 0 then Some (None, st1\<lparr>ft_calls := calls @ [Call_FT_Done_Face]\<rparr>)
                else Some (Some (next_font st),
                           st\<lparr>font_objs := (font_objs st)(next_font st \<mapsto>
                                  new_TrueTypeFont sz dpi (snd sized) (font_key_of filename sz dpi)),
                              next_font := Suc (next_font st),
                              ft_calls := calls,
                              font_data := \<lparr>ft_library = True,
                                 fonts = Some (hashmapPut (case fonts (font_data st) of None \<Rightarrow> [] | Some m \<Rightarrow> m)
                                                 (font_key_of filename sz dpi) (next_font st))\<rparr>\<rparr>))"
proof -
  have found: "(case fonts (font_data st) of None \<Rightarrow> None
                | Some m \<Rightarrow> hashmapGet m \<lparr>key_size = sz, key_dpi = dpi, key_path = filename\<rparr>) = None"
    using assms by (simp add: registered_def font_key_of_def)
  show ?thesis
    unfolding gr_ttf_loadFont_def Let_def found
    by (cases "FT_New_Face lib filename";
        cases "FT_Set_Char_Size lib (snd (FT_New_Face lib filename)) (sz * 16) dpi";
        cases "ft_library (font_data st)")
       (simp_all add: font_key_of_def)
qed


lemma freeFont_live:
  assumes "font_objs st h = Some d" "registered st (font_key d) = Some h"
  shows "gr_ttf_freeFont st h =
     (if refcount d = 1
      then Some (st\<lparr>font_data := (font_data st)\<lparr>fonts :=
                       (let m = hashmapRemove (the (fonts (font_data st))) (font_key d)
                        in if hashmapSize m = 0 then None else Some m)\<rparr>,
                    ft_calls := ft_calls st @ [Call_FT_Done_Face],
                    font_objs := (font_objs st)(h := None)\<rparr>)
      else Some (st\<lparr>font_objs := (font_objs st)(h \<mapsto> d\<lparr>refcount := refcount d - 1\<rparr>)\<rparr>))"
  using assms
  by (auto simp: gr_ttf_freeFont_def registered_def Let_def split: option.splits)

lemma registered_hashmapPut:
  "registered (st\<lparr>font_data := \<lparr>ft_library = b, fonts = Some (hashmapPut m k v)\<rparr>\<rparr>) k' =
     (if k' = k then Some v else hashmapGet m k')"
  by (simp add: registered_def hashmapGet_def hashmapPut_def update_conv')

lemma map_of_delete_Nil:
  assumes "AList.delete k m = []" "k' \<noteq> k"
  shows "map_of m k' = None"
proof -
  have "map_of m k' = map_of (AList.delete k m) k'"
    using assms(2) by (simp add: delete_conv')
  then show ?thesis using assms(1) by simp
qed

lemma registered_hashmapRemove:
  assumes "fonts (font_data st) = Some m"
  shows "registered (st\<lparr>font_data := (font_data st)\<lparr>fonts :=
             (let m' = hashmapRemove m k in if hashmapSize m' = 0 then None else Some m')\<rparr>\<rparr>) k' =
         (if k' = k then None else registered st k')"
  using assms
  by (auto simp: registered_def hashmapGet_def hashmapRemove_def hashmapSize_def Let_def
        delete_conv' map_of_delete_Nil)

lemma registered_font_objs_upd [simp]:
  "registered (st\<lparr>font_objs := x\<rparr>) = registered st"
  "registered (st\<lparr>ft_calls := y\<rparr>) = registered st"
  "registered (st\<lparr>next_font := z\<rparr>) = registered st"
  by (simp_all add: registered_def fun_eq_iff)

lemma registry_inv_registered:
  "registry_inv st \<Longrightarrow> registered st k = Some a \<Longrightarrow>
     \<exists>d. font_objs st a = Some d \<and> font_key d = k \<and> 1 \<le> refcount d"
  unfolding registry_inv_def by blast

lemma registry_inv_live:
  "registry_inv st \<Longrightarrow> font_objs st a = Some d \<Longrightarrow> registered st (font_key d) = Some a"
  unfolding registry_inv_def by blast

lemma registry_inv_below:
  "registry_inv st \<Longrightarrow> font_objs st a = Some d \<Longrightarrow> a < next_font st"
  unfolding registry_inv_def by blast

lemma registry_inv_unique:
  assumes "registry_inv st" "font_objs st a = Some d" "font_objs st b = Some e"
    "font_key d = font_key e"
  shows "a = b"
  using assms unfolding registry_inv_def by (metis option.inject)

lemma registry_inv_loadFont:
  assumes inv: "registry_inv st" and l: "gr_ttf_loadFont lib st filename sz dpi = Some (r, st')"
  shows "registry_inv st'"
proof (cases "registered st (font_key_of filename sz dpi)")
  case (Some h)
  with inv obtain d where d: "font_objs st h = Some d" "font_key d = font_key_of filename sz dpi"
      "1 \<le> refcount d"
    unfolding registry_inv_def by blast
  from l loadFont_hit[OF Some d(1), of lib]
  have st': "st' = st\<lparr>font_objs := (font_objs st)(h \<mapsto> d\<lparr>refcount := refcount d + 1\<rparr>)\<rparr>"
    by simp
  show ?thesis
    unfolding registry_inv_def st'
  proof (intro conjI allI impI)
    fix k a
    assume "registered (st\<lparr>font_objs := (font_objs st)(h \<mapsto> d\<lparr>refcount := refcount d + 1\<rparr>)\<rparr>) k = Some a"
    then have ka: "registered st k = Some a" by simp
    from registry_inv_registered[OF inv ka] obtain e where
      e: "font_objs st a = Some e" "font_key e = k" "1 \<le> refcount e" by blast
    show "\<exists>da. font_objs (st\<lparr>font_objs := (font_objs st)(h \<mapsto> d\<lparr>refcount := refcount d + 1\<rparr>)\<rparr>) a
                  = Some da \<and> font_key da = k \<and> 1 \<le> refcount da"
      using e d by (cases "a = h") auto
  next
    fix a e
    assume "font_objs (st\<lparr>font_objs := (font_objs st)(h \<mapsto> d\<lparr>refcount := refcount d + 1\<rparr>)\<rparr>) a = Some e"
    then have "\<exists>e'. font_objs st a = Some e' \<and> font_key e' = font_key e"
      using d by (cases "a = h") auto
    then obtain e' where e': "font_objs st a = Some e'" "font_key e' = font_key e" by blast
    show "registered (st\<lparr>font_objs := (font_objs st)(h \<mapsto> d\<lparr>refcount := refcount d + 1\<rparr>)\<rparr>)
            (font_key e) = Some a"
      using registry_inv_live[OF inv e'(1)] e'(2) by simp
    show "a < next_font (st\<lparr>font_objs := (font_objs st)(h \<mapsto> d\<lparr>refcount := refcount d + 1\<rparr>)\<rparr>)"
      using registry_inv_below[OF inv e'(1)] by simp
  qed
next
  case None
  let ?k = "font_key_of filename sz dpi"
  let ?m = "case fonts (font_data st) of None \<Rightarrow> [] | Some m \<Rightarrow> m"
  have reg: "\<And>k'. hashmapGet ?m k' = registered st k'"
    by (simp add: registered_def hashmapGet_def split: option.splits)
  have inv_calls: "\<And>c b. registry_inv (st\<lparr>font_data := (font_data st)\<lparr>ft_library := b\<rparr>, ft_calls := c\<rparr>)"
    using inv by (simp add: registry_inv_def registered_def)
  have inv_calls': "\<And>c. registry_inv (st\<lparr>ft_calls := c\<rparr>)"
    using inv by (simp add: registry_inv_def registered_def)
  show ?thesis
  proof (cases r)
    case None
    with l loadFont_miss[OF \<open>registered st ?k = None\<close>, of lib]
    show ?thesis
      using inv_calls inv_calls' by (auto simp: Let_def split: if_splits)
  next
    case (Some h)
    with l loadFont_miss[OF \<open>registered st ?k = None\<close>, of lib]
    obtain fc calls where h: "h = next_font st"
      and st': "st' = st\<lparr>font_objs := (font_objs st)(next_font st \<mapsto> new_TrueTypeFont sz dpi fc ?k),
                       next_font := Suc (next_font st), ft_calls := calls,
                       font_data := \<lparr>ft_library = True, fonts = Some (hashmapPut ?m ?k (next_font st))\<rparr>\<rparr>"
      by (auto simp: Let_def split: if_splits)
    have r': "\<And>k'. registered st' k' = (if k' = ?k then Some (next_font st) else registered st k')"
      unfolding st' by (simp add: registered_def hashmapGet_def hashmapPut_def update_conv' split: option.splits)
    have fo: "font_objs st' = (font_objs st)(next_font st \<mapsto> new_TrueTypeFont sz dpi fc ?k)"
      and nf: "next_font st' = Suc (next_font st)"
      unfolding st' by simp_all
    have fresh: "font_objs st (next_font st) = None"
      using inv unfolding registry_inv_def by (metis less_irrefl not_Some_eq)
    show ?thesis
      unfolding registry_inv_def r' fo nf
    proof (intro conjI allI impI)
      fix k a
      assume "(if k = ?k then Some (next_font st) else registered st k) = Some a"
      then consider "k = ?k" "a = next_font st" | "k \<noteq> ?k" "registered st k = Some a"
        by (auto split: if_splits)
      then show "\<exists>d. ((font_objs st)(next_font st \<mapsto> new_TrueTypeFont sz dpi fc ?k)) a = Some d
                  \<and> font_key d = k \<and> 1 \<le> refcount d"
      proof cases
        case 1
        then show ?thesis by (simp add: new_TrueTypeFont_def)
      next
        case 2
        from registry_inv_registered[OF inv 2(2)] obtain e where
          e: "font_objs st a = Some e" "font_key e = k" "1 \<le> refcount e" by blast
        with fresh have "a \<noteq> next_font st" by auto
        with e show ?thesis by simp
      qed
    next
      fix a d
      assume a: "((font_objs st)(next_font st \<mapsto> new_TrueTypeFont sz dpi fc ?k)) a = Some d"
      show "(if font_key d = ?k then Some (next_font st) else registered st (font_key d)) = Some a"
      proof (cases "a = next_font st")
        case True
        with a show ?thesis by (auto simp: new_TrueTypeFont_def)
      next
        case False
        with a have "font_objs st a = Some d" by simp
        with inv have "registered st (font_key d) = Some a"
          unfolding registry_inv_def by blast
        with \<open>registered st ?k = None\<close> show ?thesis by auto
      qed
      show "a < Suc (next_font st)"
        using a inv unfolding registry_inv_def by (auto split: if_splits simp: less_Suc_eq)
    qed
  qed
qed

lemma registry_inv_freeFont:
  assumes inv: "registry_inv st" and f: "gr_ttf_freeFont st h = Some st'"
  shows "registry_inv st'"
proof -
  from f obtain d where d: "font_objs st h = Some d"
    by (auto simp: gr_ttf_freeFont_def split: option.splits)
  with inv have reg: "registered st (font_key d) = Some h" and rc: "1 \<le> refcount d"
    unfolding registry_inv_def by (blast, metis option.inject)
  then obtain m where m: "fonts (font_data st) = Some m"
    by (auto simp: registered_def split: option.splits)
  note ff = freeFont_live[OF d reg]
  show ?thesis
  proof (cases "refcount d = 1")
    case True
    let ?fd = "(font_data st)\<lparr>fonts := (let m' = hashmapRemove m (font_key d)
                 in if hashmapSize m' = 0 then None else Some m')\<rparr>"
    from f ff True m have st': "st' = st\<lparr>font_data := ?fd, ft_calls := ft_calls st @ [Call_FT_Done_Face],
               font_objs := (font_objs st)(h := None)\<rparr>"
      by simp
    have r': "\<And>k'. registered st' k' = (if k' = font_key d then None else registered st k')"
      using registered_hashmapRemove[OF m, of "font_key d"] unfolding st' by simp
    have fo: "font_objs st' = (font_objs st)(h := None)" and nf: "next_font st' = next_font st"
      unfolding st' by simp_all
    show ?thesis
      unfolding registry_inv_def r' fo nf
    proof (intro conjI allI impI)
      fix k a
      assume "(if k = font_key d then None else registered st k) = Some a"
      then have k: "k \<noteq> font_key d" "registered st k = Some a"
        by (auto split: if_splits)
      with inv obtain e where e: "font_objs st a = Some e" "font_key e = k" "1 \<le> refcount e"
        unfolding registry_inv_def by blast
      with k d have "a \<noteq> h" by auto
      with e show "\<exists>d. ((font_objs st)(h := None)) a = Some d \<and> font_key d = k \<and> 1 \<le> refcount d"
        by simp
    next
      fix a e
      assume a: "((font_objs st)(h := None)) a = Some e"
      then have ah: "a \<noteq> h" and e: "font_objs st a = Some e"
        by (auto split: if_splits)
      have "font_key e \<noteq> font_key d"
        using registry_inv_unique[OF inv e d] ah by blast
      moreover have "registered st (font_key e) = Some a"
        using inv e unfolding registry_inv_def by blast
      ultimately show "(if font_key e = font_key d then None else registered st (font_key e)) = Some a"
        by simp
      show "a < next_font st"
        using inv e unfolding registry_inv_def by blast
    qed
  next
    case False
    from f ff False have st': "st' = st\<lparr>font_objs := (font_objs st)(h \<mapsto> d\<lparr>refcount := refcount d - 1\<rparr>)\<rparr>"
      by simp
    have rc2: "1 \<le> refcount d - 1"
      using rc False by simp
    show ?thesis
      unfolding registry_inv_def st'
    proof (intro conjI allI impI)
      fix k a
      assume "registered (st\<lparr>font_objs := (font_objs st)(h \<mapsto> d\<lparr>refcount := refcount d - 1\<rparr>)\<rparr>) k = Some a"
      then have ka: "registered st k = Some a" by simp
      from registry_inv_registered[OF inv ka] obtain e where
        e: "font_objs st a = Some e" "font_key e = k" "1 \<le> refcount e" by blast
      show "\<exists>da. font_objs (st\<lparr>font_objs := (font_objs st)(h \<mapsto> d\<lparr>refcount := refcount d - 1\<rparr>)\<rparr>) a
                    = Some da \<and> font_key da = k \<and> 1 \<le> refcount da"
        using e d rc2 by (cases "a = h") auto
    next
      fix a e
      assume "font_objs (st\<lparr>font_objs := (font_objs st)(h \<mapsto> d\<lparr>refcount := refcount d - 1\<rparr>)\<rparr>) a = Some e"
      then have "\<exists>e'. font_objs st a = Some e' \<and> font_key e' = font_key e"
        using d by (cases "a = h") auto
      then obtain e' where e': "font_objs st a = Some e'" "font_key e' = font_key e" by blast
      show "registered (st\<lparr>font_objs := (font_objs st)(h \<mapsto> d\<lparr>refcount := refcount d - 1\<rparr>)\<rparr>)
              (font_key e) = Some a"
        using registry_inv_live[OF inv e'(1)] e'(2) by simp
      show "a < next_font (st\<lparr>font_objs := (font_objs st)(h \<mapsto> d\<lparr>refcount := refcount d - 1\<rparr>)\<rparr>)"
        using registry_inv_below[OF inv e'(1)] by simp
    qed
  qed
qed


lemma loadFont_registers:
  assumes "gr_ttf_loadFont lib st filename sz dpi = Some (Some h, st1)"
  shows "registered st1 (font_key_of filename sz dpi) = Some h \<and> (\<exists>d. font_objs st1 h = Some d)"
proof (cases "registered st (font_key_of filename sz dpi)")
  case (Some h')
  with assms obtain d where d: "font_objs st h' = Some d"
    by (auto simp: gr_ttf_loadFont_def registered_def font_key_of_def Let_def split: option.splits)
  from assms loadFont_hit[OF Some d, of lib] Some show ?thesis
    by auto
next
  case None
  from assms loadFont_miss[OF None, of lib] show ?thesis
    by (auto simp: Let_def registered_def hashmapGet_def hashmapPut_def update_conv'
             split: if_splits)
qed

text \<open>
  C4. In a process whose registry satisfies its invariant: a load that returns a handle is
  followed, for the same (path, size, dpi), by a load that returns the same address and
  changes nothing but this font's reference count, which goes up by one (no FreeType call is
  made); two live fonts never carry the same key, and both operations keep the invariant;
  \<^verbatim>\<open>gr_ttf_freeFont\<close> only lowers the count while it stays above 0, and when it reaches 0
  the key leaves the registry, \<^verbatim>\<open>FT_Done_Face\<close> is called and the font object with its
  two caches leaves the heap, nothing else changing; a load of a key that is not registered
  opens the face again and creates a new font with reference count 1 and empty caches.
\<close>

theorem font_registry_refcounting:
  assumes inv: "registry_inv st"
  shows "(\<forall>h st1. gr_ttf_loadFont lib st filename sz dpi = Some (Some h, st1) \<longrightarrow>
            (\<exists>d. font_objs st1 h = Some d \<and>
                 gr_ttf_loadFont lib st1 filename sz dpi =
                   Some (Some h, st1\<lparr>font_objs := (font_objs st1)(h \<mapsto> d\<lparr>refcount := refcount d + 1\<rparr>)\<rparr>)))
       \<and> (\<forall>a b d e. font_objs st a = Some d \<and> font_objs st b = Some e \<and> font_key d = font_key e
            \<longrightarrow> a = b)
       \<and> (\<forall>r st'. gr_ttf_loadFont lib st filename sz dpi = Some (r, st') \<longrightarrow> registry_inv st')
       \<and> (\<forall>h st'. gr_ttf_freeFont st h = Some st' \<longrightarrow> registry_inv st')
       \<and> (\<forall>h d. font_objs st h = Some d \<and> refcount d \<noteq> 1 \<longrightarrow>
            gr_ttf_freeFont st h =
              Some (st\<lparr>font_objs := (font_objs st)(h \<mapsto> d\<lparr>refcount := refcount d - 1\<rparr>)\<rparr>))
       \<and> (\<forall>h d. font_objs st h = Some d \<and> refcount d = 1 \<longrightarrow>
            (\<exists>st'. gr_ttf_freeFont st h = Some st' \<and> font_objs st' h = None
                  \<and> registered st' (font_key d) = None
                  \<and> ft_calls st' = ft_calls st @ [Call_FT_Done_Face]
                  \<and> (\<forall>a. a \<noteq> h \<longrightarrow> font_objs st' a = font_objs st a)
                  \<and> (\<forall>k. k \<noteq> font_key d \<longrightarrow> registered st' k = registered st k)))
       \<and> (registered st (font_key_of filename sz dpi) = None \<and> FT_Init_FreeType lib = 0
          \<and> fst (FT_New_Face lib filename) = 0
          \<and> fst (FT_Set_Char_Size lib (snd (FT_New_Face lib filename)) (sz * 16) dpi) = 0 \<longrightarrow>
            (\<exists>st'. gr_ttf_loadFont lib st filename sz dpi = Some (Some (next_font st), st')
                  \<and> font_objs st (next_font st) = None
                  \<and> font_objs st' (next_font st) =
                      Some (new_TrueTypeFont sz dpi
                              (snd (FT_Set_Char_Size lib (snd (FT_New_Face lib filename)) (sz * 16) dpi))
                              (font_key_of filename sz dpi))
                  \<and> ft_calls st' = ft_calls st
                       @ (if ft_library (font_data st) then [] else [Call_FT_Init_FreeType])
                       @ [Call_FT_New_Face filename, Call_FT_Set_Char_Size (sz * 16) dpi]))"
proof -
  have a: "\<forall>h st1. gr_ttf_loadFont lib st filename sz dpi = Some (Some h, st1) \<longrightarrow>
            (\<exists>d. font_objs st1 h = Some d \<and>
                 gr_ttf_loadFont lib st1 filename sz dpi =
                   Some (Some h, st1\<lparr>font_objs := (font_objs st1)(h \<mapsto> d\<lparr>refcount := refcount d + 1\<rparr>)\<rparr>))"
  proof (intro allI impI)
    fix h st1
    assume "gr_ttf_loadFont lib st filename sz dpi = Some (Some h, st1)"
    from loadFont_registers[OF this] obtain d where
      r: "registered st1 (font_key_of filename sz dpi) = Some h" and d: "font_objs st1 h = Some d"
      by blast
    from loadFont_hit[OF r d, of lib] d
    show "\<exists>d. font_objs st1 h = Some d \<and>
                 gr_ttf_loadFont lib st1 filename sz dpi =
                   Some (Some h, st1\<lparr>font_objs := (font_objs st1)(h \<mapsto> d\<lparr>refcount := refcount d + 1\<rparr>)\<rparr>)"
      by blast
  qed
  have b: "\<forall>a b d e. font_objs st a = Some d \<and> font_objs st b = Some e \<and> font_key d = font_key e
            \<longrightarrow> a = b"
    using registry_inv_unique[OF inv] by blast
  have c: "\<forall>r st'. gr_ttf_loadFont lib st filename sz dpi = Some (r, st') \<longrightarrow> registry_inv st'"
    using registry_inv_loadFont[OF inv] by blast
  have d: "\<forall>h st'. gr_ttf_freeFont st h = Some st' \<longrightarrow> registry_inv st'"
    using registry_inv_freeFont[OF inv] by blast
  have e: "\<forall>h d. font_objs st h = Some d \<and> refcount d \<noteq> 1 \<longrightarrow>
            gr_ttf_freeFont st h =
              Some (st\<lparr>font_objs := (font_objs st)(h \<mapsto> d\<lparr>refcount := refcount d - 1\<rparr>)\<rparr>)"
    using freeFont_live registry_inv_live[OF inv] by simp
  have f: "\<forall>h d. font_objs st h = Some d \<and> refcount d = 1 \<longrightarrow>
            (\<exists>st'. gr_ttf_freeFont st h = Some st' \<and> font_objs st' h = None
                  \<and> registered st' (font_key d) = None
                  \<and> ft_calls st' = ft_calls st @ [Call_FT_Done_Face]
                  \<and> (\<forall>a. a \<noteq> h \<longrightarrow> font_objs st' a = font_objs st a)
                  \<and> (\<forall>k. k \<noteq> font_key d \<longrightarrow> registered st' k = registered st k))"
  proof (intro allI impI, elim conjE)
    fix h d
    assume hd: "font_objs st h = Some d" and rc: "refcount d = 1"
    have reg: "registered st (font_key d) = Some h"
      by (rule registry_inv_live[OF inv hd])
    then obtain m where m: "fonts (font_data st) = Some m"
      by (auto simp: registered_def split: option.splits)
    let ?st' = "st\<lparr>font_data := (font_data st)\<lparr>fonts :=
                       (let m' = hashmapRemove m (font_key d)
                        in if hashmapSize m' = 0 then None else Some m')\<rparr>,
                    ft_calls := ft_calls st @ [Call_FT_Done_Face],
                    font_objs := (font_objs st)(h := None)\<rparr>"
    have ff: "gr_ttf_freeFont st h = Some ?st'"
      using freeFont_live[OF hd reg] rc m by simp
    have r': "\<And>k'. registered ?st' k' = (if k' = font_key d then None else registered st k')"
      using registered_hashmapRemove[OF m, of "font_key d"] by simp
    show "\<exists>st'. gr_ttf_freeFont st h = Some st' \<and> font_objs st' h = None
                  \<and> registered st' (font_key d) = None
                  \<and> ft_calls st' = ft_calls st @ [Call_FT_Done_Face]
                  \<and> (\<forall>a. a \<noteq> h \<longrightarrow> font_objs st' a = font_objs st a)
                  \<and> (\<forall>k. k \<noteq> font_key d \<longrightarrow> registered st' k = registered st k)"
      by (rule exI[of _ ?st']) (simp add: ff registered_hashmapRemove[OF m])
  qed
  have g: "registered st (font_key_of filename sz dpi) = None \<and> FT_Init_FreeType lib = 0
          \<and> fst (FT_New_Face lib filename) = 0
          \<and> fst (FT_Set_Char_Size lib (snd (FT_New_Face lib filename)) (sz * 16) dpi) = 0 \<longrightarrow>
            (\<exists>st'. gr_ttf_loadFont lib st filename sz dpi = Some (Some (next_font st), st')
                  \<and> font_objs st (next_font st) = None
                  \<and> font_objs st' (next_font st) =
                      Some (new_TrueTypeFont sz dpi
                              (snd (FT_Set_Char_Size lib (snd (FT_New_Face lib filename)) (sz * 16) dpi))
                              (font_key_of filename sz dpi))
                  \<and> ft_calls st' = ft_calls st
                       @ (if ft_library (font_data st) then [] else [Call_FT_Init_FreeType])
                       @ [Call_FT_New_Face filename, Call_FT_Set_Char_Size (sz * 16) dpi])"
  proof (intro impI, elim conjE)
    assume n: "registered st (font_key_of filename sz dpi) = None"
      and ok: "FT_Init_FreeType lib = 0" "fst (FT_New_Face lib filename) = 0"
        "fst (FT_Set_Char_Size lib (snd (FT_New_Face lib filename)) (sz * 16) dpi) = 0"
    have fresh: "font_objs st (next_font st) = None"
      using registry_inv_below[OF inv, of "next_font st"] by (cases "font_objs st (next_font st)") auto
    show "\<exists>st'. gr_ttf_loadFont lib st filename sz dpi = Some (Some (next_font st), st')
                  \<and> font_objs st (next_font st) = None
                  \<and> font_objs st' (next_font st) =
                      Some (new_TrueTypeFont sz dpi
                              (snd (FT_Set_Char_Size lib (snd (FT_New_Face lib filename)) (sz * 16) dpi))
                              (font_key_of filename sz dpi))
                  \<and> ft_calls st' = ft_calls st
                       @ (if ft_library (font_data st) then [] else [Call_FT_Init_FreeType])
                       @ [Call_FT_New_Face filename, Call_FT_Set_Char_Size (sz * 16) dpi]"
      using loadFont_miss[OF n, of lib] ok fresh by (simp add: Let_def)
  qed
  show ?thesis
    by (rule conjI[OF a conjI[OF b conjI[OF c conjI[OF d conjI[OF e conjI[OF f g]]]]]])
qed


theorem font_registry_refcounting_witness:
  "registry_inv initial_process
   \<and> do {
        (h1, s1) \<leftarrow> gr_ttf_loadFont example_library initial_process ''font.ttf'' 8 96;
        (h2, s2) \<leftarrow> gr_ttf_loadFont example_library s1 ''font.ttf'' 8 96;
        s3 \<leftarrow> gr_ttf_freeFont s2 0;
        s4 \<leftarrow> gr_ttf_freeFont s3 0;
        (h5, s5) \<leftarrow> gr_ttf_loadFont example_library s4 ''font.ttf'' 8 96;
        Some (h1, h2, map (\<lambda>s. map_option refcount (font_objs s 0)) [s1, s2, s3, s4],
              registered s4 example_key, h5, map_option refcount (font_objs s5 1), ft_calls s5)
      }
     = Some (Some 0, Some 0, [Some 1, Some 2, Some 1, None], None, Some 1, Some 1,
             [Call_FT_Init_FreeType, Call_FT_New_Face ''font.ttf'', Call_FT_Set_Char_Size 128 96,
              Call_FT_Done_Face, Call_FT_New_Face ''font.ttf'', Call_FT_Set_Char_Size 128 96])
   \<and> (\<exists>st1 d. gr_ttf_loadFont example_library initial_process ''font.ttf'' 8 96 = Some (Some 0, st1)
        \<and> font_objs st1 0 = Some d
        \<and> gr_ttf_loadFont example_library st1 ''font.ttf'' 8 96 =
            Some (Some 0, st1\<lparr>font_objs := (font_objs st1)(0 \<mapsto> d\<lparr>refcount := refcount d + 1\<rparr>)\<rparr>))"
proof -
  have i: "registry_inv initial_process"
    by (rule registry_inv_initial)
  have ev: "do {
        (h1, s1) \<leftarrow> gr_ttf_loadFont example_library initial_process ''font.ttf'' 8 96;
        (h2, s2) \<leftarrow> gr_ttf_loadFont example_library s1 ''font.ttf'' 8 96;
        s3 \<leftarrow> gr_ttf_freeFont s2 0;
        s4 \<leftarrow> gr_ttf_freeFont s3 0;
        (h5, s5) \<leftarrow> gr_ttf_loadFont example_library s4 ''font.ttf'' 8 96;
        Some (h1, h2, map (\<lambda>s. map_option refcount (font_objs s 0)) [s1, s2, s3, s4],
              registered s4 example_key, h5, map_option refcount (font_objs s5 1), ft_calls s5)
      }
     = Some (Some 0, Some 0, [Some 1, Some 2, Some 1, None], None, Some 1, Some 1,
             [Call_FT_Init_FreeType, Call_FT_New_Face ''font.ttf'', Call_FT_Set_Char_Size 128 96,
              Call_FT_Done_Face, Call_FT_New_Face ''font.ttf'', Call_FT_Set_Char_Size 128 96])"
    by code_simp
  have "case gr_ttf_loadFont example_library initial_process ''font.ttf'' 8 96 of
          Some (Some h, st1) \<Rightarrow> h = 0
        | _ \<Rightarrow> False"
    by code_simp
  then obtain st1 where
    l1: "gr_ttf_loadFont example_library initial_process ''font.ttf'' 8 96 = Some (Some 0, st1)"
    by (auto split: option.splits)
  from font_registry_refcounting[OF i, of example_library "''font.ttf''" 8 96, THEN conjunct1] l1
  have "\<exists>d. font_objs st1 0 = Some d
        \<and> gr_ttf_loadFont example_library st1 ''font.ttf'' 8 96 =
            Some (Some 0, st1\<lparr>font_objs := (font_objs st1)(0 \<mapsto> d\<lparr>refcount := refcount d + 1\<rparr>)\<rparr>)"
    by blast
  with l1 have t: "\<exists>st1 d. gr_ttf_loadFont example_library initial_process ''font.ttf'' 8 96 = Some (Some 0, st1)
        \<and> font_objs st1 0 = Some d
        \<and> gr_ttf_loadFont example_library st1 ''font.ttf'' 8 96 =
            Some (Some 0, st1\<lparr>font_objs := (font_objs st1)(0 \<mapsto> d\<lparr>refcount := refcount d + 1\<rparr>)\<rparr>)"
    by blast
  show ?thesis
    by (intro conjI i ev t)
qed

subsection \<open>The string cache\<close>

lemma first_of_append: "first_of (xs @ ys) n = first_of xs (first_of ys n)"
  by (cases xs) simp_all

lemma last_of_append: "last_of (xs @ ys) p = last_of ys (last_of xs p)"
  by (induction xs arbitrary: p) simp_all

lemma last_of_snoc [simp]: "last_of (xs @ [a]) p = Some a"
  by (simp add: last_of_append)

lemma last_of_Cons: "last_of (a # as) p = Some (last (a # as))"
  by (induction as arbitrary: a) simp_all

lemma dll_append:
  "dll h p (xs @ ys) n \<longleftrightarrow> dll h p xs (first_of ys n) \<and> dll h (last_of xs p) ys n"
  by (induction xs arbitrary: p) (auto simp: first_of_append split: option.splits)

lemma dll_upd_notin: "a \<notin> set as \<Longrightarrow> dll (h(a := x)) p as n = dll h p as n"
  by (induction as arbitrary: p) (auto split: option.splits)

lemma dll_in_dom: "dll h p as n \<Longrightarrow> a \<in> set as \<Longrightarrow> \<exists>e. h a = Some e"
  by (induction as arbitrary: p) (auto split: option.splits)

lemma dll_set_next_last:
  assumes "dll h p (xs @ [a]) n" "a \<notin> set xs" "h a = Some e"
  shows "dll (h(a \<mapsto> e\<lparr>next_entry := n'\<rparr>)) p (xs @ [a]) n'"
  using assms by (simp add: dll_append dll_upd_notin)

lemma dll_set_prev_first:
  assumes "dll h p (a # xs) n" "a \<notin> set xs" "h a = Some e"
  shows "dll (h(a \<mapsto> e\<lparr>prev_entry := p'\<rparr>)) p' (a # xs) n"
  using assms by (simp add: dll_upd_notin)

lemma dll_end_irrelevant_nonempty_last:
  "dll h p (xs @ [a]) n \<Longrightarrow> \<exists>e. h a = Some e \<and> next_entry e = n \<and> prev_entry e = last_of xs p"
  by (auto simp: dll_append split: option.splits)

lemma dll_first:
  "dll h p (a # xs) n \<Longrightarrow> \<exists>e. h a = Some e \<and> prev_entry e = p \<and> next_entry e = first_of xs n"
  by (auto split: option.splits)

lemma move_to_tail_eval:
  assumes ea: "entries font a = Some ea" and nx: "next_entry ea = Some b"
    and eb: "entries font b = Some eb" and ab: "a \<noteq> b"
    and tl: "string_cache_tail font = Some t" and ta: "t \<noteq> a" and et: "entries font t = Some et"
    and pv: "prev_entry ea = pa"
    and pa: "case pa of None \<Rightarrow> True
             | Some p \<Rightarrow> p \<noteq> a \<and> p \<noteq> b \<and> p \<noteq> t \<and> entries font p \<noteq> None"
  shows "move_to_tail font a =
           Some (font\<lparr>entries := moved_entries (entries font) a b t pa,
                      string_cache_head := (if pa = None then Some b else string_cache_head font),
                      string_cache_tail := Some a\<rparr>)"
proof (cases pa)
  case None
  then show ?thesis
    using assms
    by (auto simp: move_to_tail_def set_next_def set_prev_def moved_entries_def Let_def)
next
  case (Some p)
  with pa obtain ep where p: "p \<noteq> a" "p \<noteq> b" "p \<noteq> t" "entries font p = Some ep"
    by auto
  show ?thesis
    using assms(1-8) Some p
    by (auto simp: move_to_tail_def set_next_def set_prev_def moved_entries_def Let_def)
qed

lemma payload_upd [simp]:
  "payload (e\<lparr>next_entry := x\<rparr>) = payload e" "payload (e\<lparr>prev_entry := y\<rparr>) = payload e"
  by (simp_all add: payload_def)

lemma same_payload_refl [simp]: "same_payload h h"
  by (simp add: same_payload_def)

lemma same_payload_trans: "same_payload h h1 \<Longrightarrow> same_payload h1 h2 \<Longrightarrow> same_payload h h2"
  by (simp add: same_payload_def)

lemma same_payload_next: "h p = Some e \<Longrightarrow> same_payload h (h(p \<mapsto> e\<lparr>next_entry := v\<rparr>))"
  by (simp add: same_payload_def)

lemma same_payload_prev: "h p = Some e \<Longrightarrow> same_payload h (h(p \<mapsto> e\<lparr>prev_entry := v\<rparr>))"
  by (simp add: same_payload_def)

lemma same_payload_both:
  "h p = Some e \<Longrightarrow> same_payload h (h(p \<mapsto> e\<lparr>next_entry := v, prev_entry := w\<rparr>))"
  by (simp add: same_payload_def payload_def)

lemma moved_entries_dll:
  assumes d: "distinct (xs @ a # b # ys)" and l: "dll h None (xs @ a # b # ys) None"
  shows "dll (moved_entries h a b (last (b # ys)) (last_of xs None)) None (xs @ b # ys @ [a]) None
       \<and> same_payload h (moved_entries h a b (last (b # ys)) (last_of xs None))"
proof -
  let ?pa = "last_of xs None"
  define t where "t = last (b # ys)"
  from l have A: "dll h None xs (Some a)" and B: "dll h ?pa (a # b # ys) None"
    by (simp_all add: dll_append)
  from dll_first[OF B] obtain ea where
    ea: "h a = Some ea" "prev_entry ea = ?pa" "next_entry ea = Some b"
    by auto
  from B ea have C: "dll h (Some a) (b # ys) None"
    by simp
  define h1 where "h1 = (case ?pa of None \<Rightarrow> h | Some p \<Rightarrow> h(p \<mapsto> (the (h p))\<lparr>next_entry := Some b\<rparr>))"
  have "dll h1 None xs (Some b) \<and> dll h1 (Some a) (b # ys) None \<and> h1 a = Some ea
                \<and> same_payload h h1"
  proof (cases xs rule: rev_cases)
    case Nil
    then show "dll h1 None xs (Some b) \<and> dll h1 (Some a) (b # ys) None \<and> h1 a = Some ea
                \<and> same_payload h h1"
      using C ea by (simp add: h1_def)
  next
    case (snoc xs' p)
    with A obtain ep where ep: "h p = Some ep"
      using dll_in_dom[of h None xs "Some a" p] by auto
    from d snoc have p: "p \<notin> set xs'" "p \<notin> set (b # ys)" "p \<noteq> a" by auto
    have h1: "h1 = h(p \<mapsto> ep\<lparr>next_entry := Some b\<rparr>)"
      by (simp add: h1_def snoc ep)
    have "dll h1 None xs (Some b)"
      unfolding h1 snoc by (rule dll_set_next_last[OF A[unfolded snoc] p(1) ep])
    moreover have "dll h1 (Some a) (b # ys) None"
      unfolding h1 using C by (simp only: dll_upd_notin[OF p(2)])
    moreover have "h1 a = Some ea"
      unfolding h1 using ea p(3) by simp
    moreover have "same_payload h h1"
      unfolding h1 using ep by (simp add: same_payload_def)
    ultimately show "dll h1 None xs (Some b) \<and> dll h1 (Some a) (b # ys) None \<and> h1 a = Some ea
                \<and> same_payload h h1"
      by blast
  qed
  then have A1: "dll h1 None xs (Some b)" and C1: "dll h1 (Some a) (b # ys) None"
    and a1: "h1 a = Some ea" and s1: "same_payload h h1"
    by blast+
  from dll_first[OF C1] obtain eb where eb: "h1 b = Some eb"
    by auto
  from d have b: "b \<notin> set ys" "b \<notin> set xs" "b \<noteq> a" by auto
  define h2 where "h2 = h1(b \<mapsto> (the (h1 b))\<lparr>prev_entry := ?pa\<rparr>)"
  have h2: "h2 = h1(b \<mapsto> eb\<lparr>prev_entry := ?pa\<rparr>)"
    by (simp add: h2_def eb)
  have C2: "dll h2 ?pa (b # ys) None"
    unfolding h2 by (rule dll_set_prev_first[OF C1 b(1) eb])
  have A2: "dll h2 None xs (Some b)"
    unfolding h2 using A1 by (simp only: dll_upd_notin[OF b(2)])
  have D2: "dll h2 None (xs @ b # ys) None"
    using A2 C2 by (simp only: dll_append first_of.simps simp_thms)
  have a2: "h2 a = Some ea"
    unfolding h2 using a1 b(3) by simp
  have s2: "same_payload h1 h2"
    unfolding h2 using eb by (simp add: same_payload_def)
  define h4 where "h4 = h2(a \<mapsto> (the (h2 a))\<lparr>next_entry := None, prev_entry := Some t\<rparr>)"
  have h4: "h4 = h2(a \<mapsto> ea\<lparr>next_entry := None, prev_entry := Some t\<rparr>)"
    by (simp add: h4_def a2)
  from d have an: "a \<notin> set (xs @ b # ys)" by auto
  have D4: "dll h4 None (xs @ b # ys) None"
    unfolding h4 using D2 by (simp only: dll_upd_notin[OF an])
  have a4: "h4 a = Some (ea\<lparr>next_entry := None, prev_entry := Some t\<rparr>)"
    unfolding h4 by simp
  have s4: "same_payload h2 h4"
    unfolding h4 using a2 by (simp add: same_payload_def payload_def)
  define zs where "zs = butlast (xs @ b # ys)"
  have "last (xs @ b # ys) = t" by (simp add: t_def)
  then have zs: "xs @ b # ys = zs @ [t]"
    unfolding zs_def using append_butlast_last_id[of "xs @ b # ys"] by simp
  from d have "distinct (xs @ b # ys)" by auto
  then have tz: "t \<notin> set zs"
    unfolding zs by simp
  have ta: "t \<noteq> a"
    using an unfolding zs by auto
  have "t \<in> set (xs @ b # ys)"
    unfolding zs by simp
  from dll_in_dom[OF D4 this] obtain et where et: "h4 t = Some et"
    by blast
  define h5 where "h5 = h4(t \<mapsto> (the (h4 t))\<lparr>next_entry := Some a\<rparr>)"
  have h5: "h5 = h4(t \<mapsto> et\<lparr>next_entry := Some a\<rparr>)"
    by (simp add: h5_def et)
  have D5: "dll h5 None (zs @ [t]) (Some a)"
    unfolding h5 by (rule dll_set_next_last[OF D4[unfolded zs] tz et])
  have a5: "h5 a = Some (ea\<lparr>next_entry := None, prev_entry := Some t\<rparr>)"
    unfolding h5 using a4 ta by simp
  have s5: "same_payload h4 h5"
    unfolding h5 using et by (simp add: same_payload_def)
  have "dll h5 None ((zs @ [t]) @ [a]) None"
    unfolding dll_append[of h5 None "zs @ [t]" "[a]" None] using D5 a5 by simp
  then have "dll h5 None (xs @ b # ys @ [a]) None"
    unfolding zs[symmetric] by simp
  moreover have "moved_entries h a b t ?pa = h5"
    unfolding moved_entries_def Let_def h5_def h4_def h2_def h1_def ..
  moreover have "same_payload h h5"
    using s1 s2 s4 s5 by (blast intro: same_payload_trans)
  ultimately show ?thesis unfolding t_def by (simp only: simp_thms)
qed

lemma same_payload_key:
  "same_payload h h' \<Longrightarrow> map_option key (h' c) = map_option key (h c)"
proof -
  assume "same_payload h h'"
  then have "map_option payload (h' c) = map_option payload (h c)"
    by (simp add: same_payload_def)
  then show ?thesis
    by (cases "h c"; cases "h' c") (auto simp: payload_def)
qed

lemma map_inv_same_payload: "map_inv m h as \<Longrightarrow> same_payload h h' \<Longrightarrow> map_inv m h' as"
  unfolding map_inv_def by (auto simp: same_payload_key)

lemma map_inv_set: "set as = set bs \<Longrightarrow> map_inv m h as = map_inv m h bs"
  by (simp add: map_inv_def)

lemma map_inv_length:
  assumes "map_inv m h as" "distinct as"
  shows "hashmapSize m = length as"
proof -
  have "length m = length (map snd m)" by simp
  also have "\<dots> = card (set (map snd m))"
    using assms(1) distinct_card[of "map snd m"] unfolding map_inv_def by metis
  also have "\<dots> = card (set as)"
    using assms(1) by (simp add: map_inv_def)
  also have "\<dots> = length as"
    using assms(2) by (simp add: distinct_card)
  finally show ?thesis by (simp add: hashmapSize_def)
qed

lemma map_inv_get:
  assumes "map_inv m h as"
  shows "hashmapGet m k = Some a \<longleftrightarrow> (k, a) \<in> set m"
  using assms by (simp add: map_inv_def hashmapGet_def)

lemma map_inv_get_in:
  assumes "map_inv m h as" "hashmapGet m k = Some a"
  shows "a \<in> set as \<and> map_option key (h a) = Some k"
proof -
  from assms have "(k, a) \<in> set m" by (simp add: map_inv_get)
  with assms(1) show ?thesis
    unfolding map_inv_def by force
qed

lemma map_inv_key_get:
  assumes "map_inv m h as" "a \<in> set as" "h a = Some e"
  shows "hashmapGet m (key e) = Some a"
proof -
  from assms(1,2) obtain k where k: "(k, a) \<in> set m"
    unfolding map_inv_def by force
  with assms(1) have "map_option key (h a) = Some k"
    unfolding map_inv_def by force
  with assms(3) have "k = key e" by simp
  with k assms(1) show ?thesis by (simp add: map_inv_get)
qed

lemma update_fresh: "k \<notin> fst ` set m \<Longrightarrow> AList.update k v m = m @ [(k, v)]"
  by (induction m) auto

lemma map_inv_put:
  assumes m: "map_inv m h as" and k: "hashmapGet m k = None" and r: "res \<notin> set as"
    and h': "same_payload h (h'(res := h res))" and hr: "map_option key (h' res) = Some k"
  shows "map_inv (hashmapPut m k res) h' (as @ [res])"
proof -
  from k have kf: "k \<notin> fst ` set m"
    by (simp add: hashmapGet_def map_of_eq_None_iff)
  have put: "hashmapPut m k res = m @ [(k, res)]"
    by (simp add: hashmapPut_def update_fresh[OF kf])
  have keys: "\<And>k' a. (k', a) \<in> set m \<Longrightarrow> map_option key (h' a) = Some k'"
  proof -
    fix k' a assume ka: "(k', a) \<in> set m"
    with m have a: "a \<in> set as" "map_option key (h a) = Some k'"
      unfolding map_inv_def by force+
    with r have "a \<noteq> res" by auto
    then have "map_option key (h' a) = map_option key ((h'(res := h res)) a)" by simp
    also have "\<dots> = map_option key (h a)" by (rule same_payload_key[OF h'])
    finally show "map_option key (h' a) = Some k'" using a by simp
  qed
  show ?thesis
    unfolding put map_inv_def
    using m kf r hr keys by (auto simp: map_inv_def)
qed

lemma delete_filter: "AList.delete k m = filter (\<lambda>p. fst p \<noteq> k) m"
  by (induction m) auto

lemma map_inv_remove:
  assumes m: "map_inv m h (a # as)" and a: "a \<notin> set as" and e: "h a = Some e"
    and h': "same_payload h (h'(a := h a))"
  shows "map_inv (hashmapRemove m (key e)) h' as
       \<and> hashmapGet (hashmapRemove m (key e)) (key e) = None"
proof -
  have del: "hashmapRemove m (key e) = filter (\<lambda>p. fst p \<noteq> key e) m"
    by (simp add: hashmapRemove_def delete_filter)
  have ka: "(key e, a) \<in> set m"
    using map_inv_key_get[OF m _ e] m by (simp add: map_inv_get)
  have iff: "\<And>k' a'. (k', a') \<in> set m \<Longrightarrow> k' = key e \<longleftrightarrow> a' = a"
  proof -
    fix k' a' assume p: "(k', a') \<in> set m"
    show "k' = key e \<longleftrightarrow> a' = a"
    proof
      assume "k' = key e"
      with p ka m show "a' = a"
        unfolding map_inv_def by (metis map_of_is_SomeI option.inject)
    next
      assume "a' = a"
      with p m e show "k' = key e"
        unfolding map_inv_def by force
    qed
  qed
  have s: "snd ` set (filter (\<lambda>p. fst p \<noteq> key e) m) = set as"
  proof -
    have "snd ` set (filter (\<lambda>p. fst p \<noteq> key e) m) = snd ` set m - {a}"
      using iff by force
    also have "\<dots> = set as" using m a by (simp add: map_inv_def)
    finally show ?thesis .
  qed
  have keys: "\<And>k' a'. (k', a') \<in> set m \<Longrightarrow> a' \<noteq> a \<Longrightarrow> map_option key (h' a') = Some k'"
  proof -
    fix k' a' assume ka: "(k', a') \<in> set m" and ne: "a' \<noteq> a"
    then have "map_option key (h' a') = map_option key ((h'(a := h a)) a')" by simp
    also have "\<dots> = map_option key (h a')" by (rule same_payload_key[OF h'])
    finally show "map_option key (h' a') = Some k'" using ka m unfolding map_inv_def by force
  qed
  have "map_inv (filter (\<lambda>p. fst p \<noteq> key e) m) h' as"
    unfolding map_inv_def
  proof (intro conjI)
    show "distinct (map fst (filter (\<lambda>p. fst p \<noteq> key e) m))"
      using m by (simp add: map_inv_def distinct_map_filter)
    show "distinct (map snd (filter (\<lambda>p. fst p \<noteq> key e) m))"
      using m by (simp add: map_inv_def distinct_map_filter)
    show "snd ` set (filter (\<lambda>p. fst p \<noteq> key e) m) = set as" by (rule s)
    show "\<forall>(k, a)\<in>set (filter (\<lambda>p. fst p \<noteq> key e) m). map_option key (h' a) = Some k"
      using keys iff by auto
  qed
  moreover have "hashmapGet (filter (\<lambda>p. fst p \<noteq> key e) m) (key e) = None"
    by (auto simp add: hashmapGet_def map_of_eq_None_iff)
  ultimately show ?thesis by (simp add: del)
qed

lemma only_cache_changed_refl [simp]: "only_cache_changed f f"
  by (simp add: only_cache_changed_def)

lemma only_cache_changed_trans:
  "only_cache_changed f f1 \<Longrightarrow> only_cache_changed f1 f2 \<Longrightarrow> only_cache_changed f f2"
  by (cases f, cases f1, cases f2) (simp add: only_cache_changed_def)

lemma cache_inv_head2:
  assumes "cache_inv font (a # b # rest)"
  shows "\<exists>ea eb. string_cache_head font = Some a \<and> entries font a = Some ea
           \<and> next_entry ea = Some b \<and> entries font b = Some eb \<and> a \<noteq> b"
proof -
  from assms have l: "dll (entries font) None (a # b # rest) None"
    and h: "string_cache_head font = Some a" and d: "distinct (a # b # rest)"
    by (simp_all add: cache_inv_def)
  from dll_first[OF l] obtain ea where ea: "entries font a = Some ea" "next_entry ea = Some b"
    by auto
  from dll_in_dom[OF l, of b] obtain eb where "entries font b = Some eb" by auto
  with ea h d show ?thesis by auto
qed

lemma truncate_step:
  assumes inv: "cache_inv font (a # b # rest)"
  shows "\<exists>font' ea. truncate_entries (Suc n) font = truncate_entries n font'
           \<and> cache_inv font' (b # rest)
           \<and> entries font a = Some ea \<and> entries font' a = None
           \<and> hashmapGet (string_cache font') (key ea) = None
           \<and> set (string_cache font') \<subseteq> set (string_cache font)
           \<and> same_payload (entries font) ((entries font')(a := entries font a))
           \<and> only_cache_changed font font'"
proof -
  from cache_inv_head2[OF inv] obtain ea eb where
    f: "string_cache_head font = Some a" "entries font a = Some ea" "next_entry ea = Some b"
       "entries font b = Some eb" "a \<noteq> b"
    by blast
  define h' where "h' = ((entries font)(b \<mapsto> eb\<lparr>prev_entry := None\<rparr>))(a := None)"
  define font' where "font' = font\<lparr>string_cache_head := Some b,
            string_cache := hashmapRemove (string_cache font) (key ea), entries := h'\<rparr>"
  have t: "truncate_entries (Suc n) font = truncate_entries n font'"
    using f by (simp add: set_prev_def font'_def h'_def)
  from inv have d: "distinct (a # b # rest)"
    and l: "dll (entries font) None (a # b # rest) None"
    and tl: "string_cache_tail font = last_of (a # b # rest) None"
    and m: "map_inv (string_cache font) (entries font) (a # b # rest)"
    and nf: "\<forall>x\<in>set (a # b # rest). x < next_free font"
    by (simp_all add: cache_inv_def)
  from l f have l1: "dll (entries font) (Some a) (b # rest) None"
    by simp
  from d have bn: "b \<notin> set rest" and an: "a \<notin> set (b # rest)" by auto
  have l2: "dll h' None (b # rest) None"
    unfolding h'_def using dll_set_prev_first[OF l1 bn f(4), of None]
    by (simp only: dll_upd_notin[OF an])
  have sp: "same_payload (entries font) (h'(a := entries font a))"
    unfolding h'_def same_payload_def using f by auto
  from map_inv_remove[OF m _ f(2) sp] an
  have m2: "map_inv (hashmapRemove (string_cache font) (key ea)) h' (b # rest)"
    and g: "hashmapGet (hashmapRemove (string_cache font) (key ea)) (key ea) = None"
    by simp_all
  have tl2: "last_of (a # b # rest) None = last_of (b # rest) None"
    by (simp add: last_of_Cons)
  have inv': "cache_inv font' (b # rest)"
    unfolding cache_inv_def font'_def using d l2 tl tl2 m2 nf by simp
  have sub: "set (string_cache font') \<subseteq> set (string_cache font)"
    by (auto simp: font'_def hashmapRemove_def delete_filter)
  have oc: "only_cache_changed font font'"
    by (simp add: only_cache_changed_def font'_def)
  have e': "entries font' a = None" by (simp add: font'_def h'_def)
  have g': "hashmapGet (string_cache font') (key ea) = None"
    using g by (simp add: font'_def)
  have sp': "same_payload (entries font) ((entries font')(a := entries font a))"
    using sp by (simp add: font'_def)
  show ?thesis
    by (rule exI[of _ font'], rule exI[of _ ea]) (intro conjI t inv' f(2) e' g' sub sp' oc)
qed

lemma hashmapGet_None_subset:
  "hashmapGet m k = None \<Longrightarrow> set m' \<subseteq> set m \<Longrightarrow> hashmapGet m' k = None"
  by (auto simp: hashmapGet_def map_of_eq_None_iff)

lemma payload_key: "map_option payload x = map_option payload y \<Longrightarrow> map_option key x = map_option key y"
  by (cases x; cases y) (auto simp: payload_def)

lemma truncate_entries_correct:
  assumes "cache_inv font as" "n < length as"
  shows "\<exists>font'. truncate_entries n font = Some font' \<and> cache_inv font' (drop n as)
           \<and> (\<forall>a\<in>set (take n as). entries font' a = None)
           \<and> (\<forall>a\<in>set (take n as). \<forall>e. entries font a = Some e \<longrightarrow>
                 hashmapGet (string_cache font') (key e) = None)
           \<and> set (string_cache font') \<subseteq> set (string_cache font)
           \<and> (\<forall>c. c \<notin> set (take n as) \<longrightarrow>
                 map_option payload (entries font' c) = map_option payload (entries font c))
           \<and> only_cache_changed font font'"
  using assms
proof (induction n arbitrary: font as)
  case 0
  then show ?case by simp
next
  case (Suc n)
  from Suc.prems(2) obtain a b rest where as: "as = a # b # rest"
    by (cases as rule: remdups_adj.cases) auto
  from truncate_step[OF Suc.prems(1)[unfolded as], of n] obtain font1 ea where
    t: "truncate_entries (Suc n) font = truncate_entries n font1"
    and inv1: "cache_inv font1 (b # rest)"
    and ea: "entries font a = Some ea" and e1: "entries font1 a = None"
    and g1: "hashmapGet (string_cache font1) (key ea) = None"
    and sub1: "set (string_cache font1) \<subseteq> set (string_cache font)"
    and sp1: "same_payload (entries font) ((entries font1)(a := entries font a))"
    and oc1: "only_cache_changed font font1"
    by blast
  from Suc.prems(2) as have n: "n < length (b # rest)" by simp
  from Suc.IH[OF inv1 n] obtain font' where
    t': "truncate_entries n font1 = Some font'"
    and inv': "cache_inv font' (drop n (b # rest))"
    and ev: "\<forall>x\<in>set (take n (b # rest)). entries font' x = None"
    and kv: "\<forall>x\<in>set (take n (b # rest)). \<forall>e. entries font1 x = Some e \<longrightarrow>
                 hashmapGet (string_cache font') (key e) = None"
    and sub': "set (string_cache font') \<subseteq> set (string_cache font1)"
    and pl: "\<forall>c. c \<notin> set (take n (b # rest)) \<longrightarrow>
                 map_option payload (entries font' c) = map_option payload (entries font1 c)"
    and oc': "only_cache_changed font1 font'"
    by blast
  from Suc.prems(1) as have d: "distinct (a # b # rest)"
    by (simp add: cache_inv_def)
  then have an: "a \<notin> set (take n (b # rest))"
    by (auto dest: in_set_takeD)
  have p1: "\<And>c. c \<noteq> a \<Longrightarrow> map_option payload (entries font1 c) = map_option payload (entries font c)"
    using sp1 unfolding same_payload_def by (metis fun_upd_other)
  have c1: "truncate_entries (Suc n) font = Some font'"
    using t t' by (simp only:)
  have c2: "cache_inv font' (drop (Suc n) as)"
    using inv' by (simp add: as)
  have c3: "\<forall>x\<in>set (take (Suc n) as). entries font' x = None"
  proof
    fix x assume "x \<in> set (take (Suc n) as)"
    then have "x = a \<or> x \<in> set (take n (b # rest))" by (auto simp: as)
    then show "entries font' x = None"
    proof
      assume "x = a"
      with pl an e1 show ?thesis by (metis map_option_is_None)
    next
      assume "x \<in> set (take n (b # rest))"
      with ev show ?thesis by blast
    qed
  qed
  have c4: "\<forall>x\<in>set (take (Suc n) as). \<forall>e. entries font x = Some e \<longrightarrow>
                 hashmapGet (string_cache font') (key e) = None"
  proof (intro ballI allI impI)
    fix x e assume x: "x \<in> set (take (Suc n) as)" and e: "entries font x = Some e"
    from x have "x = a \<or> (x \<noteq> a \<and> x \<in> set (take n (b # rest)))"
      using an by (auto simp: as)
    then show "hashmapGet (string_cache font') (key e) = None"
    proof
      assume "x = a"
      with e ea have "e = ea" by simp
      with hashmapGet_None_subset[OF g1 sub'] show ?thesis by simp
    next
      assume xx: "x \<noteq> a \<and> x \<in> set (take n (b # rest))"
      with p1[of x] e have "map_option key (entries font1 x) = Some (key e)"
        using payload_key[of "entries font1 x" "entries font x"] by simp
      then obtain e1 where "entries font1 x = Some e1" "key e1 = key e" by auto
      with kv xx show ?thesis by metis
    qed
  qed
  have c5: "set (string_cache font') \<subseteq> set (string_cache font)"
    using sub1 sub' by blast
  have c6: "\<forall>c. c \<notin> set (take (Suc n) as) \<longrightarrow>
                 map_option payload (entries font' c) = map_option payload (entries font c)"
  proof (intro allI impI)
    fix c assume "c \<notin> set (take (Suc n) as)"
    then have "c \<noteq> a" "c \<notin> set (take n (b # rest))" by (auto simp: as)
    with pl p1 show "map_option payload (entries font' c) = map_option payload (entries font c)"
      by simp
  qed
  have c7: "only_cache_changed font font'"
    by (rule only_cache_changed_trans[OF oc1 oc'])
  show ?case
    by (rule exI[of _ font']) (intro conjI c1 c2 c3 c4 c5 c6 c7)
qed

lemma only_glyphs_changed_refl [simp]: "only_glyphs_changed f f"
  by (simp add: only_glyphs_changed_def)

lemma only_glyphs_changed_trans:
  "only_glyphs_changed f f1 \<Longrightarrow> only_glyphs_changed f1 f2 \<Longrightarrow> only_glyphs_changed f f2"
  by (cases f, cases f1, cases f2) (simp add: only_glyphs_changed_def)

lemma only_glyphs_changed_fields:
  assumes "only_glyphs_changed f f'"
  shows "entries f' = entries f" "string_cache f' = string_cache f"
    "string_cache_head f' = string_cache_head f" "string_cache_tail f' = string_cache_tail f"
    "next_free f' = next_free f" "face f' = face f" "font_size f' = font_size f"
  using assms by (cases f, cases f', simp add: only_glyphs_changed_def)+

lemma glyph_cache_get_only_glyphs:
  "gr_ttf_glyph_cache_get f i = (r, f1) \<Longrightarrow> only_glyphs_changed f f1"
  by (auto simp: gr_ttf_glyph_cache_get_def Let_def only_glyphs_changed_def
           split: option.splits if_splits prod.splits)

lemma render_glyphs_only_glyphs:
  "render_glyphs gs x p surf f = Some (x', surf', f') \<Longrightarrow> only_glyphs_changed f f'"
proof (induction gs arbitrary: x p surf f)
  case Nil
  then show ?case by simp
next
  case (Cons g gs)
  obtain ent f1 where g: "gr_ttf_glyph_cache_get f g = (ent, f1)"
    by (cases "gr_ttf_glyph_cache_get f g")
  note o1 = glyph_cache_get_only_glyphs[OF g]
  from Cons.prems g have "\<exists>x p surf. render_glyphs gs x p surf f1 = Some (x', surf', f')"
    by (cases ent) (auto simp: Let_def split: if_splits option.splits)
  then show ?case
    using o1 Cons.IH by (auto intro: only_glyphs_changed_trans)
qed

lemma render_count_only_glyphs:
  "render_count mw p n w pr cs f = Some (n', w', cs', f') \<Longrightarrow> only_glyphs_changed f f'"
proof (induction mw p n w pr cs f rule: render_count.induct)
  case (1 max_width text_itr max_len total_w prev_idx char_idxs f)
  from "1.prems" obtain c itr1 where d: "deref_incr text_itr = Some (c, itr1)"
    by (subst (asm) render_count.simps) (auto split: option.splits)
  show ?case
  proof (cases "c = 0")
    case True
    with "1.prems" d show ?thesis
      by (subst (asm) render_count.simps) simp
  next
    case False
    with "1.prems" d obtain i itr2 where dc: "decode_char_idx (face f) c itr1 = Some (i, itr2)"
      and b: "max_len < length char_idxs"
      by (subst (asm) render_count.simps) (auto split: option.splits if_splits)
    obtain ent f1 where g: "gr_ttf_glyph_cache_get f i = (ent, f1)"
      by (cases "gr_ttf_glyph_cache_get f i")
    note o1 = glyph_cache_get_only_glyphs[OF g]
    from b have nn: "\<not> \<not> max_len < length char_idxs" by simp
    show ?thesis
    proof (cases ent)
      case None
      with "1.prems" d False dc b g have
        r: "render_count max_width itr2 (max_len + 1) total_w i (char_idxs[max_len := i]) f1
              = Some (n', w', cs', f')"
        by (subst (asm) render_count.simps) simp
      have "only_glyphs_changed f1 f'"
        by (rule "1.IH"(1)[OF d refl False dc refl nn g[symmetric] None r])
      with o1 show ?thesis by (rule only_glyphs_changed_trans)
    next
      case (Some e)
      define diff2 where "diff2 = (if FT_HAS_KERNING (face f1) \<and> prev_idx \<noteq> 0 \<and> i \<noteq> 0
                     then drop_bit 16 (advance_x (glyph e))
                          + drop_bit 6 (FT_Get_Kerning (face f1) prev_idx i)
                     else drop_bit 16 (advance_x (glyph e)))"
      have u: "render_count max_width text_itr max_len total_w prev_idx char_idxs f =
                 (if max_width \<noteq> - 1 \<and> total_w + diff2 > max_width
                  then Some (max_len, total_w, char_idxs[max_len := i], f1)
                  else render_count max_width itr2 (max_len + 1) (total_w + diff2) i
                         (char_idxs[max_len := i]) f1)"
        by (subst render_count.simps) (simp add: d False dc b g Some Let_def diff2_def)
      show ?thesis
      proof (cases "max_width \<noteq> - 1 \<and> total_w + diff2 > max_width")
        case True
        with "1.prems" u have "f' = f1"
          by simp
        with o1 show ?thesis by simp
      next
        case nb: False
        with "1.prems" u have
          r: "render_count max_width itr2 (max_len + 1) (total_w + diff2) i
                (char_idxs[max_len := i]) f1 = Some (n', w', cs', f')"
          by simp
        have "only_glyphs_changed f1 f'"
          by (rule "1.IH"(2)[OF d refl False dc refl nn g[symmetric] Some refl
                diff2_def nb r])
        with o1 show ?thesis by (rule only_glyphs_changed_trans)
      qed
    qed
  qed
qed

lemma render_text_only_glyphs:
  assumes "gr_ttf_render_text font surf text mw = Some (len, surf', font')"
  shows "only_glyphs_changed font font'"
proof -
  from assms obtain n w cs f1 where
    c: "render_count mw (c_string text) 0 0 0 (replicate (strlen text) 0) font = Some (n, w, cs, f1)"
    and rs: "render_surface surf n w cs f1 = Some (len, surf', font')"
    by (auto simp: gr_ttf_render_text_def split: option.splits)
  note o1 = render_count_only_glyphs[OF c]
  from rs have "\<exists>gs x s x' s'. render_glyphs gs x 0 s f1 = Some (x', s', font')"
    by (fastforce simp: render_surface_def gr_ttf_getMaxFontHeight_under_def
          pthread_mutex_lock_def Let_def split: option.splits if_splits)
  then have "only_glyphs_changed f1 font'"
    by (auto dest: render_glyphs_only_glyphs)
  with o1 show ?thesis
    by (blast intro: only_glyphs_changed_trans)
qed

lemma cache_inv_only_glyphs:
  "only_glyphs_changed f f' \<Longrightarrow> cache_inv f' as = cache_inv f as"
  by (simp add: cache_inv_def only_glyphs_changed_fields)

lemma cache_inv_split:
  assumes inv: "cache_inv font as" and a: "a \<in> set as"
  shows "\<exists>xs ys ea. as = xs @ a # ys \<and> a \<notin> set xs \<and> a \<notin> set ys
           \<and> entries font a = Some ea \<and> prev_entry ea = last_of xs None
           \<and> next_entry ea = first_of ys None"
proof -
  from a obtain xs ys where as: "as = xs @ a # ys"
    by (auto dest: split_list)
  from inv have d: "distinct as" and l: "dll (entries font) None as None"
    by (simp_all add: cache_inv_def)
  from l have "dll (entries font) (last_of xs None) (a # ys) None"
    by (simp add: as dll_append)
  from dll_first[OF this] obtain ea where
    "entries font a = Some ea" "prev_entry ea = last_of xs None" "next_entry ea = first_of ys None"
    by auto
  with as d show ?thesis by auto
qed

lemma cache_inv_hit_tail:
  assumes inv: "cache_inv font as"
    and hit: "hashmapGet (string_cache font) (StringCacheKey_of text mw) = Some a"
    and last: "a = last as"
  shows "gr_ttf_string_cache_get font text mw = Some (Some a, font)"
proof -
  from inv have m: "map_inv (string_cache font) (entries font) as"
    and d: "distinct as"
    by (simp_all add: cache_inv_def)
  from map_inv_get_in[OF m hit] have a: "a \<in> set as" by simp
  from cache_inv_split[OF inv a] obtain xs ys ea where
    as: "as = xs @ a # ys" "a \<notin> set xs" "a \<notin> set ys"
    and ea: "entries font a = Some ea" "next_entry ea = first_of ys None"
    by blast
  have "ys = []"
  proof (rule ccontr)
    assume "ys \<noteq> []"
    then have "last as \<in> set ys" by (simp add: as)
    with last as show False by simp
  qed
  with ea hit show ?thesis
    by (simp add: gr_ttf_string_cache_get_def Let_def)
qed

lemma cache_inv_move_to_tail:
  assumes inv: "cache_inv font as" and a: "a \<in> set as" and nl: "a \<noteq> last as"
  shows "\<exists>font1 ea. entries font a = Some ea \<and> next_entry ea \<noteq> None
           \<and> move_to_tail font a = Some font1
           \<and> cache_inv font1 (remove1 a as @ [a])
           \<and> same_payload (entries font) (entries font1)
           \<and> string_cache font1 = string_cache font
           \<and> only_cache_changed font font1"
proof -
  from cache_inv_split[OF inv a] obtain xs ys ea where
    as: "as = xs @ a # ys" "a \<notin> set xs" "a \<notin> set ys"
    and ea: "entries font a = Some ea" "prev_entry ea = last_of xs None"
            "next_entry ea = first_of ys None"
    by blast
  from nl as obtain b ys' where ys: "ys = b # ys'"
    by (cases ys) auto
  note as' = as(1)[unfolded ys]
  from inv have d: "distinct (xs @ a # b # ys')"
    and l: "dll (entries font) None (xs @ a # b # ys') None"
    and hd: "string_cache_head font = first_of (xs @ a # b # ys') None"
    and tl: "string_cache_tail font = last_of (xs @ a # b # ys') None"
    and m: "map_inv (string_cache font) (entries font) (xs @ a # b # ys')"
    and nf: "\<forall>x\<in>set (xs @ a # b # ys'). x < next_free font"
    by (simp_all add: cache_inv_def as')
  define t where "t = last (b # ys')"
  define pa where "pa = last_of xs None"
  have tin: "t \<in> set (b # ys')"
    unfolding t_def by (rule last_in_set) simp
  have "last_of (xs @ a # b # ys') None = last_of (b # ys') (Some a)"
    by (simp add: last_of_append)
  then have tl': "string_cache_tail font = Some t"
    unfolding tl t_def by (simp only: last_of_Cons)
  from dll_in_dom[OF l, of b] obtain eb where eb: "entries font b = Some eb" by auto
  from dll_in_dom[OF l, of t] tin obtain et where et: "entries font t = Some et" by auto
  from d have ab: "a \<noteq> b" by auto
  from d tin have ta: "t \<noteq> a" by auto
  have pc: "case pa of None \<Rightarrow> True
            | Some p \<Rightarrow> p \<noteq> a \<and> p \<noteq> b \<and> p \<noteq> t \<and> entries font p \<noteq> None"
  proof (cases xs rule: rev_cases)
    case Nil
    then show ?thesis by (simp add: pa_def)
  next
    case (snoc xs' p)
    then have pin: "p \<in> set xs" by simp
    with d tin have "p \<noteq> a" "p \<noteq> b" "p \<noteq> t" by auto
    moreover from dll_in_dom[OF l, of p] pin have "entries font p \<noteq> None" by auto
    ultimately show ?thesis by (simp add: pa_def snoc)
  qed
  define font1 where "font1 = font\<lparr>entries := moved_entries (entries font) a b t pa,
                      string_cache_head := (if pa = None then Some b else string_cache_head font),
                      string_cache_tail := Some a\<rparr>"
  have mv: "move_to_tail font a = Some font1"
    unfolding font1_def
    by (rule move_to_tail_eval[OF ea(1) ea(3)[unfolded ys first_of.simps] eb ab tl' ta et
              ea(2)[folded pa_def] pc])
  from moved_entries_dll[OF d l] have
    l1: "dll (entries font1) None (xs @ b # ys' @ [a]) None"
    and sp: "same_payload (entries font) (entries font1)"
    by (simp_all add: font1_def t_def pa_def)
  have r: "remove1 a as @ [a] = xs @ b # ys' @ [a]"
    using as by (simp add: as' remove1_append)
  have hd1: "string_cache_head font1 = first_of (xs @ b # ys' @ [a]) None"
    by (cases xs rule: rev_cases) (simp_all add: font1_def pa_def hd first_of_append)
  have tl1: "string_cache_tail font1 = last_of (xs @ b # ys' @ [a]) None"
  proof -
    have "last_of (xs @ b # ys' @ [a]) None = last_of ((xs @ b # ys') @ [a]) None" by simp
    also have "\<dots> = Some a" by (rule last_of_snoc)
    finally show ?thesis by (simp add: font1_def)
  qed
  have st: "set (xs @ a # b # ys') = set (xs @ b # ys' @ [a])" by auto
  have m1: "map_inv (string_cache font1) (entries font1) (xs @ b # ys' @ [a])"
    using map_inv_same_payload[OF m sp] map_inv_set[OF st] by (simp add: font1_def)
  have inv1: "cache_inv font1 (xs @ b # ys' @ [a])"
    unfolding cache_inv_def
  proof (intro conjI)
    show "distinct (xs @ b # ys' @ [a])" using d by auto
    show "\<forall>x\<in>set (xs @ b # ys' @ [a]). x < next_free font1"
      using nf by (auto simp: font1_def)
  qed (fact l1 hd1 tl1 m1)+
  have oc: "only_cache_changed font font1"
    by (simp add: only_cache_changed_def font1_def)
  have sc: "string_cache font1 = string_cache font"
    by (simp add: font1_def)
  have nn: "next_entry ea \<noteq> None"
    using ea(3) ys by simp
  show ?thesis
    by (rule exI[of _ font1], rule exI[of _ ea])
       (intro conjI ea(1) nn mv inv1[folded r] sp sc oc)
qed

lemma cache_inv_hit_not_tail:
  assumes inv: "cache_inv font as"
    and hit: "hashmapGet (string_cache font) (StringCacheKey_of text mw) = Some a"
    and nl: "a \<noteq> last as"
  shows "\<exists>font'. gr_ttf_string_cache_get font text mw = Some (Some a, font')
          \<and> cache_inv font'
               (if STRING_CACHE_MAX_ENTRIES \<le> length as
                then drop STRING_CACHE_TRUNCATE_ENTRIES (remove1 a as @ [a])
                else remove1 a as @ [a])
          \<and> (STRING_CACHE_MAX_ENTRIES \<le> length as \<longrightarrow>
               (\<forall>x\<in>set (take STRING_CACHE_TRUNCATE_ENTRIES (remove1 a as)).
                   entries font' x = None
                 \<and> (\<forall>e. entries font x = Some e \<longrightarrow>
                       hashmapGet (string_cache font') (key e) = None)))
          \<and> (length as < STRING_CACHE_MAX_ENTRIES \<longrightarrow> string_cache font' = string_cache font)
          \<and> (\<forall>c. (STRING_CACHE_MAX_ENTRIES \<le> length as \<longrightarrow>
                      c \<notin> set (take STRING_CACHE_TRUNCATE_ENTRIES (remove1 a as))) \<longrightarrow>
                 map_option payload (entries font' c) = map_option payload (entries font c))
          \<and> only_cache_changed font font'"
proof -
  from inv have m: "map_inv (string_cache font) (entries font) as" and d: "distinct as"
    by (simp_all add: cache_inv_def)
  from map_inv_get_in[OF m hit] have a: "a \<in> set as" by simp
  from cache_inv_move_to_tail[OF inv a nl] obtain font1 ea where
    ea: "entries font a = Some ea" "next_entry ea \<noteq> None"
    and mv: "move_to_tail font a = Some font1"
    and inv1: "cache_inv font1 (remove1 a as @ [a])"
    and sp: "same_payload (entries font) (entries font1)"
    and sc: "string_cache font1 = string_cache font"
    and oc: "only_cache_changed font font1"
    by blast
  have sz: "hashmapSize (string_cache font1) = length as"
    using map_inv_length[OF m d] sc by simp
  have g: "gr_ttf_string_cache_get font text mw =
             (if STRING_CACHE_MAX_ENTRIES \<le> length as
              then map_option (Pair (Some a)) (truncate_entries STRING_CACHE_TRUNCATE_ENTRIES font1)
              else Some (Some a, font1))"
    using hit ea mv sz
    by (cases "truncate_entries STRING_CACHE_TRUNCATE_ENTRIES font1")
       (auto simp: gr_ttf_string_cache_get_def Let_def)
  have p1: "\<And>c. map_option payload (entries font1 c) = map_option payload (entries font c)"
    using sp by (simp add: same_payload_def)
  show ?thesis
  proof (cases "STRING_CACHE_MAX_ENTRIES \<le> length as")
    case False
    then show ?thesis
      using g inv1 sc oc p1 by auto
  next
    case True
    have len: "length (remove1 a as) = length as - 1"
      using a by (simp add: length_remove1)
    with True have n: "STRING_CACHE_TRUNCATE_ENTRIES < length (remove1 a as @ [a])"
      by (simp add: STRING_CACHE_MAX_ENTRIES_def STRING_CACHE_TRUNCATE_ENTRIES_def)
    have tk: "take STRING_CACHE_TRUNCATE_ENTRIES (remove1 a as @ [a])
                = take STRING_CACHE_TRUNCATE_ENTRIES (remove1 a as)"
      using True len
      by (simp add: STRING_CACHE_MAX_ENTRIES_def STRING_CACHE_TRUNCATE_ENTRIES_def)
    from truncate_entries_correct[OF inv1 n, unfolded tk] obtain font' where
      t: "truncate_entries STRING_CACHE_TRUNCATE_ENTRIES font1 = Some font'"
      and inv': "cache_inv font' (drop STRING_CACHE_TRUNCATE_ENTRIES (remove1 a as @ [a]))"
      and ev: "\<forall>x\<in>set (take STRING_CACHE_TRUNCATE_ENTRIES (remove1 a as)). entries font' x = None"
      and kv: "\<forall>x\<in>set (take STRING_CACHE_TRUNCATE_ENTRIES (remove1 a as)).
                 \<forall>e. entries font1 x = Some e \<longrightarrow> hashmapGet (string_cache font') (key e) = None"
      and pl: "\<forall>c. c \<notin> set (take STRING_CACHE_TRUNCATE_ENTRIES (remove1 a as)) \<longrightarrow>
                 map_option payload (entries font' c) = map_option payload (entries font1 c)"
      and oc': "only_cache_changed font1 font'"
      by blast
    have kv': "\<forall>x\<in>set (take STRING_CACHE_TRUNCATE_ENTRIES (remove1 a as)).
                 \<forall>e. entries font x = Some e \<longrightarrow> hashmapGet (string_cache font') (key e) = None"
    proof (intro ballI allI impI)
      fix x e
      assume x: "x \<in> set (take STRING_CACHE_TRUNCATE_ENTRIES (remove1 a as))"
        and e: "entries font x = Some e"
      from p1[of x] e have "map_option key (entries font1 x) = Some (key e)"
        using payload_key[of "entries font1 x" "entries font x"] by simp
      then obtain e1 where "entries font1 x = Some e1" "key e1 = key e" by auto
      with kv x show "hashmapGet (string_cache font') (key e) = None" by metis
    qed
    have c1: "gr_ttf_string_cache_get font text mw = Some (Some a, font')"
      using g True t by simp
    have c5: "\<forall>c. c \<notin> set (take STRING_CACHE_TRUNCATE_ENTRIES (remove1 a as)) \<longrightarrow>
                 map_option payload (entries font' c) = map_option payload (entries font c)"
      using pl p1 by simp
    have c6: "only_cache_changed font font'"
      by (rule only_cache_changed_trans[OF oc oc'])
    show ?thesis
      using True c1 inv' ev kv' c5 c6
      by (intro exI[of _ font']) (simp add: STRING_CACHE_MAX_ENTRIES_def)
  qed
qed

lemma cache_inv_miss:
  assumes inv: "cache_inv font as"
    and miss: "hashmapGet (string_cache font) (StringCacheKey_of text mw) = None"
    and r: "gr_ttf_render_text font zeroed_surface text mw = Some (len, surf, font1)"
    and len: "0 \<le> len"
  shows "\<exists>font'. gr_ttf_string_cache_get font text mw = Some (Some (next_free font), font')
          \<and> cache_inv font' (as @ [next_free font])
          \<and> string_cache font' =
              hashmapPut (string_cache font) (StringCacheKey_of text mw) (next_free font)
          \<and> map_option payload (entries font' (next_free font))
              = Some (surf, len, StringCacheKey_of text mw)
          \<and> (\<forall>c. c \<noteq> next_free font \<longrightarrow>
                 map_option payload (entries font' c) = map_option payload (entries font c))
          \<and> next_free font' = Suc (next_free font)
          \<and> only_cache_changed font1 font'"
proof -
  define res where "res = next_free font"
  define k where "k = StringCacheKey_of text mw"
  define ne where "ne = \<lparr>surface = surf, rendered_len = len, key = k,
                          prev_entry = None, next_entry = None\<rparr>"
  note og = render_text_only_glyphs[OF r]
  note f1 = only_glyphs_changed_fields[OF og]
  from inv have inv1: "cache_inv font1 as" by (simp add: cache_inv_only_glyphs[OF og])
  from inv1 have d: "distinct as" and l: "dll (entries font1) None as None"
    and hd: "string_cache_head font1 = first_of as None"
    and tl: "string_cache_tail font1 = last_of as None"
    and m: "map_inv (string_cache font1) (entries font1) as"
    and b: "\<forall>a\<in>set as. a < next_free font1"
    by (simp_all add: cache_inv_def)
  have rn: "res \<notin> set as" using b f1(5) by (auto simp: res_def)
  have miss1: "hashmapGet (string_cache font1) k = None" using miss f1(2) by (simp add: k_def)
  show ?thesis
  proof (cases as rule: rev_cases)
    case Nil
    define font' where "font' = font1\<lparr>entries := (entries font1)(res \<mapsto> ne), next_free := Suc res,
        string_cache_head := Some res, string_cache_tail := Some res,
        string_cache := hashmapPut (string_cache font1) k res\<rparr>"
    have g: "gr_ttf_string_cache_get font text mw = Some (Some res, font')"
      using miss r len tl Nil f1(5)
      by (simp add: gr_ttf_string_cache_get_def Let_def font'_def res_def k_def ne_def)
    have mi: "map_inv (hashmapPut (string_cache font1) k res) ((entries font1)(res \<mapsto> ne)) (as @ [res])"
      by (rule map_inv_put[OF m miss1 rn]) (simp_all add: ne_def)
    have ci: "cache_inv font' (as @ [res])"
      using mi Nil by (simp add: cache_inv_def font'_def ne_def)
    have oc: "only_cache_changed font1 font'"
      by (simp add: only_cache_changed_def font'_def)
    have pl: "\<forall>c. c \<noteq> res \<longrightarrow>
                 map_option payload (entries font' c) = map_option payload (entries font c)"
      using f1(1) by (simp add: font'_def)
    have pr: "map_option payload (entries font' res) = Some (surf, len, k)"
      by (simp add: font'_def ne_def payload_def)
    have sc: "string_cache font' = hashmapPut (string_cache font) k res"
      using f1(2) by (simp add: font'_def)
    have nf: "next_free font' = Suc res" by (simp add: font'_def)
    show ?thesis
      unfolding res_def[symmetric] k_def[symmetric]
      by (rule exI[of _ font']) (intro conjI g ci sc pr pl nf oc)
  next
    case (snoc zs t)
    from l snoc dll_end_irrelevant_nonempty_last[of "entries font1" None zs t None]
    obtain et where et: "entries font1 t = Some et" by auto
    have tr: "t \<noteq> res" using rn snoc by auto
    have tz: "t \<notin> set zs" using d snoc by simp
    have tl': "string_cache_tail font1 = Some t" using tl snoc by simp
    define h' where "h' = (entries font1)(res \<mapsto> ne\<lparr>prev_entry := Some t\<rparr>,
                                           t \<mapsto> et\<lparr>next_entry := Some res\<rparr>)"
    define font' where "font' = font1\<lparr>entries := h', next_free := Suc res,
        string_cache_tail := Some res,
        string_cache := hashmapPut (string_cache font1) k res\<rparr>"
    have g: "gr_ttf_string_cache_get font text mw = Some (Some res, font')"
      using miss r len tl' f1(5) et tr
      by (simp add: gr_ttf_string_cache_get_def Let_def font'_def res_def[symmetric]
            k_def[symmetric] ne_def[symmetric] set_prev_def set_next_def h'_def)
    have sp: "same_payload (entries font1) (h'(res := entries font1 res))"
    proof -
      have "h'(res := entries font1 res) = (entries font1)(t \<mapsto> et\<lparr>next_entry := Some res\<rparr>)"
        using tr by (auto simp: h'_def fun_eq_iff)
      then show ?thesis using et by (simp add: same_payload_def)
    qed
    have mi: "map_inv (hashmapPut (string_cache font1) k res) h' (as @ [res])"
      by (rule map_inv_put[OF m miss1 rn sp]) (use tr in \<open>simp add: h'_def ne_def\<close>)
    have l1: "dll ((entries font1)(res \<mapsto> ne\<lparr>prev_entry := Some t\<rparr>)) None (zs @ [t]) None"
      using l rn snoc dll_upd_notin[of res "zs @ [t]"] by simp
    have l2: "dll h' None (zs @ [t]) (Some res)"
      unfolding h'_def
      by (rule dll_set_next_last[OF l1 tz]) (simp add: tr et)
    have l3: "dll h' None (as @ [res]) None"
      using l2 tr snoc by (simp add: dll_append h'_def ne_def)
    have hd': "first_of (as @ [res]) None = first_of as None"
      using snoc by (cases zs) simp_all
    have ci: "cache_inv font' (as @ [res])"
      using mi l3 d rn hd hd' b f1(5)
      by (auto simp: cache_inv_def font'_def res_def intro: less_SucI)
    have oc: "only_cache_changed font1 font'"
      by (simp add: only_cache_changed_def font'_def)
    have pl: "\<forall>c. c \<noteq> res \<longrightarrow>
                 map_option payload (entries font' c) = map_option payload (entries font c)"
      using sp f1(1) by (auto simp: same_payload_def font'_def split: if_splits)
    have pr: "map_option payload (entries font' res) = Some (surf, len, k)"
      using tr by (simp add: font'_def h'_def ne_def payload_def)
    have sc: "string_cache font' = hashmapPut (string_cache font) k res"
      using f1(2) by (simp add: font'_def)
    have nf: "next_free font' = Suc res" by (simp add: font'_def)
    show ?thesis
      unfolding res_def[symmetric] k_def[symmetric]
      by (rule exI[of _ font']) (intro conjI g ci sc pr pl nf oc)
  qed
qed

lemma string_cache_get_miss_fail:
  assumes miss: "hashmapGet (string_cache font) (StringCacheKey_of text mw) = None"
    and r: "gr_ttf_render_text font zeroed_surface text mw = Some (len, surf, font1)"
    and len: "len < 0"
  shows "gr_ttf_string_cache_get font text mw = Some (None, font1)"
  using assms by (simp add: gr_ttf_string_cache_get_def Let_def)

lemma cache_inv_lookup:
  assumes inv: "cache_inv font as" and a: "a \<in> set as"
  shows "\<exists>e. entries font a = Some e \<and> hashmapGet (string_cache font) (key e) = Some a"
proof -
  from cache_inv_split[OF inv a] obtain e where e: "entries font a = Some e" by blast
  from inv have "map_inv (string_cache font) (entries font) as" by (simp add: cache_inv_def)
  from map_inv_key_get[OF this a e] e show ?thesis by blast
qed

lemma cache_inv_get_shape:
  assumes inv: "cache_inv font as"
    and g: "gr_ttf_string_cache_get font text mw = Some (r, font')"
  shows "\<exists>as'. cache_inv font' as'
           \<and> (as' = as \<or> as' = as @ [next_free font]
                \<or> (\<exists>c\<in>set as. as' = order_after_hit c as))
           \<and> (\<forall>x\<in>set as \<inter> set as'.
                 map_option payload (entries font' x) = map_option payload (entries font x))"
proof (cases "hashmapGet (string_cache font) (StringCacheKey_of text mw)")
  case None
  then obtain len surf font1 where
    r: "gr_ttf_render_text font zeroed_surface text mw = Some (len, surf, font1)"
    using g by (auto simp: gr_ttf_string_cache_get_def Let_def split: option.splits)
  show ?thesis
  proof (cases "len < 0")
    case True
    from string_cache_get_miss_fail[OF None r True] g have f: "font' = font1" by simp
    note og = render_text_only_glyphs[OF r]
    have "cache_inv font1 as" using inv by (simp add: cache_inv_only_glyphs[OF og])
    then show ?thesis
      using f only_glyphs_changed_fields(1)[OF og] by auto
  next
    case False
    then have "0 \<le> len" by simp
    from cache_inv_miss[OF inv None r this] g
    have ci: "cache_inv font' (as @ [next_free font])"
      and pl: "\<forall>c. c \<noteq> next_free font \<longrightarrow>
                 map_option payload (entries font' c) = map_option payload (entries font c)"
      by auto
    from inv have "\<forall>x\<in>set as. x \<noteq> next_free font" by (auto simp: cache_inv_def)
    with pl ci show ?thesis by auto
  qed
next
  case (Some c)
  from inv have m: "map_inv (string_cache font) (entries font) as" and d: "distinct as"
    by (simp_all add: cache_inv_def)
  from map_inv_get_in[OF m Some] have cin: "c \<in> set as" by simp
  show ?thesis
  proof (cases "c = last as")
    case True
    from cache_inv_hit_tail[OF inv Some True] g have "font' = font" by simp
    with inv show ?thesis by auto
  next
    case False
    from cache_inv_hit_not_tail[OF inv Some False] g
    have ci: "cache_inv font'
             (if STRING_CACHE_MAX_ENTRIES \<le> length as
              then drop STRING_CACHE_TRUNCATE_ENTRIES (remove1 c as @ [c])
              else remove1 c as @ [c])"
      and pl: "\<forall>x. (STRING_CACHE_MAX_ENTRIES \<le> length as \<longrightarrow>
                    x \<notin> set (take STRING_CACHE_TRUNCATE_ENTRIES (remove1 c as))) \<longrightarrow>
               map_option payload (entries font' x) = map_option payload (entries font x)"
      by auto
    have ci': "cache_inv font' (order_after_hit c as)"
      using ci False by (simp add: order_after_hit_def)
    have len: "length (remove1 c as) = length as - 1"
      using cin by (simp add: length_remove1)
    have d0: "distinct (remove1 c as @ [c])"
      using d by simp
    have "\<forall>x\<in>set (order_after_hit c as).
            map_option payload (entries font' x) = map_option payload (entries font x)"
    proof
      fix x assume x: "x \<in> set (order_after_hit c as)"
      have "STRING_CACHE_MAX_ENTRIES \<le> length as \<Longrightarrow>
            x \<notin> set (take STRING_CACHE_TRUNCATE_ENTRIES (remove1 c as))"
      proof -
        assume big: "STRING_CACHE_MAX_ENTRIES \<le> length as"
        then have tk: "take STRING_CACHE_TRUNCATE_ENTRIES (remove1 c as)
                     = take STRING_CACHE_TRUNCATE_ENTRIES (remove1 c as @ [c])"
          using len by (simp add: STRING_CACHE_MAX_ENTRIES_def STRING_CACHE_TRUNCATE_ENTRIES_def)
        from big x False
        have xd: "x \<in> set (drop STRING_CACHE_TRUNCATE_ENTRIES (remove1 c as @ [c]))"
          by (simp add: order_after_hit_def)
        from d0 have "distinct (take STRING_CACHE_TRUNCATE_ENTRIES (remove1 c as @ [c])
                        @ drop STRING_CACHE_TRUNCATE_ENTRIES (remove1 c as @ [c]))"
          by (simp only: append_take_drop_id)
        then have "set (take STRING_CACHE_TRUNCATE_ENTRIES (remove1 c as @ [c]))
                   \<inter> set (drop STRING_CACHE_TRUNCATE_ENTRIES (remove1 c as @ [c])) = {}"
          by (simp only: distinct_append)
        with xd show ?thesis unfolding tk by blast
      qed
      with pl show "map_option payload (entries font' x) = map_option payload (entries font x)"
        by blast
    qed
    with ci' cin show ?thesis by blast
  qed
qed

lemma order_after_hit_split:
  assumes d: "distinct (xs @ a # ys)" and c: "c \<in> set (xs @ a # ys)"
    and k: "length ys + STRING_CACHE_TRUNCATE_ENTRIES + 2 \<le> STRING_CACHE_MAX_ENTRIES"
  shows "\<exists>xs' ys'. order_after_hit c (xs @ a # ys) = xs' @ a # ys' \<and> length ys' \<le> Suc (length ys)"
proof (cases "c = last (xs @ a # ys)")
  case True
  then have "order_after_hit c (xs @ a # ys) = xs @ a # ys"
    by (simp only: order_after_hit_def simp_thms if_True)
  moreover have "length ys \<le> Suc (length ys)" by simp
  ultimately show ?thesis by blast
next
  case False
  have "\<exists>xs0 ys0. remove1 c (xs @ a # ys) @ [c] = xs0 @ a # ys0 \<and> length ys0 \<le> Suc (length ys)
           \<and> length xs0 + length ys0 = length xs + length ys"
  proof (cases "c = a")
    case True
    from d have "remove1 a (xs @ a # ys) = xs @ ys"
      by (simp add: remove1_append)
    then show ?thesis
      unfolding True by - (rule exI[of _ "xs @ ys"], rule exI[of _ "[]"], simp)
  next
    case ca: False
    show ?thesis
    proof (cases "c \<in> set xs")
      case True
      then have "remove1 c (xs @ a # ys) @ [c] = remove1 c xs @ a # (ys @ [c])"
        by (simp add: remove1_append)
      moreover have "length (remove1 c xs) + length (ys @ [c]) = length xs + length ys"
        using True length_pos_if_in_set[OF True] by (simp add: length_remove1)
      ultimately show ?thesis
        by - (rule exI[of _ "remove1 c xs"], rule exI[of _ "ys @ [c]"], simp)
    next
      case False
      with c ca have cy: "c \<in> set ys" by simp
      with False ca have "remove1 c (xs @ a # ys) @ [c] = xs @ a # (remove1 c ys @ [c])"
        by (simp add: remove1_append)
      moreover have "length (remove1 c ys @ [c]) = length ys"
        using cy length_pos_if_in_set[OF cy] by (simp add: length_remove1)
      ultimately show ?thesis
        by - (rule exI[of _ xs], rule exI[of _ "remove1 c ys @ [c]"], simp)
    qed
  qed
  then obtain xs0 ys0 where
    e: "remove1 c (xs @ a # ys) @ [c] = xs0 @ a # ys0" and l: "length ys0 \<le> Suc (length ys)"
    and t: "length xs0 + length ys0 = length xs + length ys"
    by blast
  show ?thesis
  proof (cases "STRING_CACHE_MAX_ENTRIES \<le> length (xs @ a # ys)")
    case True
    with k l t have "STRING_CACHE_TRUNCATE_ENTRIES \<le> length xs0"
      by simp
    then have "drop STRING_CACHE_TRUNCATE_ENTRIES (xs0 @ a # ys0)
                 = drop STRING_CACHE_TRUNCATE_ENTRIES xs0 @ a # ys0"
      by simp
    with True False e l show ?thesis
      by (auto simp: order_after_hit_def)
  next
    case nb: False
    with False e l show ?thesis
      by (auto simp: order_after_hit_def)
  qed
qed

lemma protected_step:
  assumes inv: "cache_inv font (xs @ a # ys)"
    and k: "length ys + STRING_CACHE_TRUNCATE_ENTRIES + 2 \<le> STRING_CACHE_MAX_ENTRIES"
    and g: "gr_ttf_string_cache_get font text mw = Some (r, font')"
  shows "\<exists>xs' ys'. cache_inv font' (xs' @ a # ys') \<and> length ys' \<le> Suc (length ys)
           \<and> map_option payload (entries font' a) = map_option payload (entries font a)"
proof -
  from inv have d: "distinct (xs @ a # ys)" by (simp add: cache_inv_def)
  from cache_inv_get_shape[OF inv g] obtain as' where
    ci: "cache_inv font' as'"
    and sh: "as' = xs @ a # ys \<or> as' = (xs @ a # ys) @ [next_free font]
                \<or> (\<exists>c\<in>set (xs @ a # ys). as' = order_after_hit c (xs @ a # ys))"
    and pl: "\<forall>x\<in>set (xs @ a # ys) \<inter> set as'.
                 map_option payload (entries font' x) = map_option payload (entries font x)"
    by blast
  have "\<exists>xs' ys'. as' = xs' @ a # ys' \<and> length ys' \<le> Suc (length ys)"
    using sh
  proof (elim disjE bexE)
    assume "as' = xs @ a # ys"
    then show ?thesis by - (rule exI[of _ xs], rule exI[of _ ys], simp)
  next
    assume "as' = (xs @ a # ys) @ [next_free font]"
    then have "as' = xs @ a # (ys @ [next_free font])" by simp
    then show ?thesis by - (rule exI[of _ xs], rule exI[of _ "ys @ [next_free font]"], simp)
  next
    fix c assume c: "c \<in> set (xs @ a # ys)" and e: "as' = order_after_hit c (xs @ a # ys)"
    from order_after_hit_split[OF d c k] e show ?thesis by simp
  qed
  then obtain xs' ys' where e: "as' = xs' @ a # ys'" and l: "length ys' \<le> Suc (length ys)"
    by blast
  with pl have "map_option payload (entries font' a) = map_option payload (entries font a)"
    by simp
  with ci e l show ?thesis by blast
qed

lemma protected_gets:
  assumes "cache_inv font (xs @ a # ys)"
    and "length ys + length ks + STRING_CACHE_TRUNCATE_ENTRIES < STRING_CACHE_MAX_ENTRIES"
    and "string_cache_gets font ks = Some (rs, font')"
  shows "\<exists>as'. cache_inv font' as' \<and> a \<in> set as'
           \<and> map_option payload (entries font' a) = map_option payload (entries font a)"
  using assms
proof (induction ks arbitrary: font xs ys rs)
  case Nil
  then have "cache_inv font' (xs @ a # ys)" "a \<in> set (xs @ a # ys)" by simp_all
  moreover from Nil have "font' = font" by simp
  ultimately show ?case by blast
next
  case (Cons k ks)
  obtain t w where k: "k = (t, w)" by (cases k)
  from Cons.prems(3) k obtain r f1 rs1 where
    g: "gr_ttf_string_cache_get font t w = Some (r, f1)"
    and gs: "string_cache_gets f1 ks = Some (rs1, font')"
    by (auto split: option.splits)
  from Cons.prems(2)
  have k1: "length ys + STRING_CACHE_TRUNCATE_ENTRIES + 2 \<le> STRING_CACHE_MAX_ENTRIES"
    by simp
  from protected_step[OF Cons.prems(1) k1 g] obtain xs' ys' where
    ci: "cache_inv f1 (xs' @ a # ys')" and l: "length ys' \<le> Suc (length ys)"
    and p: "map_option payload (entries f1 a) = map_option payload (entries font a)"
    by blast
  from l Cons.prems(2)
  have k2: "length ys' + length ks + STRING_CACHE_TRUNCATE_ENTRIES < STRING_CACHE_MAX_ENTRIES"
    by simp
  from Cons.IH[OF ci k2 gs] p show ?case by auto
qed

lemma string_cache_gets_misses:
  assumes "cache_inv font as"
    and "distinct (map (\<lambda>(t, w). StringCacheKey_of t w) ks)"
    and "\<forall>(t, w)\<in>set ks. hashmapGet (string_cache font) (StringCacheKey_of t w) = None"
    and "string_cache_gets font ks = Some (rs, font')"
    and "None \<notin> set rs"
  shows "rs = map Some [next_free font ..< next_free font + length ks]
       \<and> cache_inv font' (as @ [next_free font ..< next_free font + length ks])
       \<and> (\<forall>c. c < next_free font \<longrightarrow>
             map_option payload (entries font' c) = map_option payload (entries font c))
       \<and> (\<forall>i<length ks. map_option key (entries font' (next_free font + i))
                              = Some ((\<lambda>(t, w). StringCacheKey_of t w) (ks ! i)))"
  using assms
proof (induction ks arbitrary: font as rs)
  case Nil
  then show ?case by simp
next
  case (Cons k ks)
  obtain t w where k: "k = (t, w)" by (cases k)
  from Cons.prems(4) k obtain r f1 rs1 where
    g: "gr_ttf_string_cache_get font t w = Some (r, f1)"
    and gs: "string_cache_gets f1 ks = Some (rs1, font')"
    and rs: "rs = r # rs1"
    by (auto split: option.splits)
  from Cons.prems(3) k have miss: "hashmapGet (string_cache font) (StringCacheKey_of t w) = None"
    by simp
  from g miss obtain len surf f0 where
    r: "gr_ttf_render_text font zeroed_surface t w = Some (len, surf, f0)"
    by (auto simp: gr_ttf_string_cache_get_def Let_def split: option.splits)
  have len: "0 \<le> len"
  proof (rule ccontr)
    assume "\<not> 0 \<le> len"
    then have "len < 0" by simp
    from string_cache_get_miss_fail[OF miss r this] g have "r = None" by simp
    with Cons.prems(5) rs show False by simp
  qed
  from cache_inv_miss[OF Cons.prems(1) miss r len] g
  have r': "r = Some (next_free font)"
    and ci: "cache_inv f1 (as @ [next_free font])"
    and sc: "string_cache f1 = hashmapPut (string_cache font) (StringCacheKey_of t w) (next_free font)"
    and pl: "\<forall>c. c \<noteq> next_free font \<longrightarrow>
               map_option payload (entries f1 c) = map_option payload (entries font c)"
    and nf: "next_free f1 = Suc (next_free font)"
    and pk: "map_option payload (entries f1 (next_free font))
               = Some (surf, len, StringCacheKey_of t w)"
    by auto
  have d: "distinct (map (\<lambda>(t, w). StringCacheKey_of t w) ks)"
    using Cons.prems(2) by simp
  have m: "\<forall>(t', w')\<in>set ks. hashmapGet (string_cache f1) (StringCacheKey_of t' w') = None"
  proof (clarify)
    fix t' w' assume in_ks: "(t', w') \<in> set ks"
    then have "StringCacheKey_of t' w' \<noteq> StringCacheKey_of t w"
      using Cons.prems(2) k by force
    moreover have "hashmapGet (string_cache font) (StringCacheKey_of t' w') = None"
      using Cons.prems(3) in_ks by auto
    ultimately show "hashmapGet (string_cache f1) (StringCacheKey_of t' w') = None"
      by (simp add: sc hashmapGet_def hashmapPut_def update_conv')
  qed
  have n: "None \<notin> set rs1" using Cons.prems(5) rs by simp
  from Cons.IH[OF ci d m gs n]
  have i1: "rs1 = map Some [next_free f1 ..< next_free f1 + length ks]"
    and i2: "cache_inv font' ((as @ [next_free font]) @ [next_free f1 ..< next_free f1 + length ks])"
    and i3: "\<forall>c. c < next_free f1 \<longrightarrow>
               map_option payload (entries font' c) = map_option payload (entries f1 c)"
    and i4: "\<forall>i<length ks. map_option key (entries font' (next_free f1 + i))
                              = Some ((\<lambda>(t, w). StringCacheKey_of t w) (ks ! i))"
    by blast+
  have up: "[next_free font ..< next_free font + length (k # ks)]
              = next_free font # [next_free f1 ..< next_free f1 + length ks]"
  proof -
    have "next_free font < next_free font + length (k # ks)" by simp
    from upt_conv_Cons[OF this] show ?thesis by (simp add: nf)
  qed
  have c1: "rs = map Some [next_free font ..< next_free font + length (k # ks)]"
    unfolding up using rs r' i1 by simp
  have c2: "cache_inv font' (as @ [next_free font ..< next_free font + length (k # ks)])"
    unfolding up using i2 by simp
  have c3: "\<forall>c. c < next_free font \<longrightarrow>
             map_option payload (entries font' c) = map_option payload (entries font c)"
    using i3 pl nf by simp
  have c4: "\<forall>i<length (k # ks). map_option key (entries font' (next_free font + i))
                              = Some ((\<lambda>(t, w). StringCacheKey_of t w) ((k # ks) ! i))"
  proof (intro allI impI)
    fix i assume i: "i < length (k # ks)"
    show "map_option key (entries font' (next_free font + i))
            = Some ((\<lambda>(t, w). StringCacheKey_of t w) ((k # ks) ! i))"
    proof (cases i)
      case 0
      from i3 nf have "map_option payload (entries font' (next_free font))
                         = map_option payload (entries f1 (next_free font))"
        by simp
      with pk have "map_option payload (entries font' (next_free font))
                      = Some (surf, len, StringCacheKey_of t w)"
        by simp
      then have "map_option key (entries font' (next_free font)) = Some (StringCacheKey_of t w)"
        by (auto simp: payload_def)
      with 0 k show ?thesis by simp
    next
      case (Suc j)
      with i have "j < length ks" by simp
      with i4 have "map_option key (entries font' (next_free f1 + j))
                      = Some ((\<lambda>(t, w). StringCacheKey_of t w) (ks ! j))"
        by blast
      with Suc nf show ?thesis by simp
    qed
  qed
  from c1 c2 c3 c4 show ?case by blast
qed

lemma remove1_last_distinct:
  assumes "distinct as" "as \<noteq> []"
  shows "remove1 (last as) as @ [last as] = as"
proof -
  from assms(2) obtain zs where as: "as = zs @ [last as]"
    by (metis append_butlast_last_id)
  with assms(1) have "last as \<notin> set zs" by (metis distinct_append distinct.simps(2) disjoint_iff list.set_intros(1) distinct1_rotate rotate1.simps(2))
  then have "remove1 (last as) (zs @ [last as]) = zs" by (simp add: remove1_append)
  with as show ?thesis by metis
qed

lemma only_cache_changed_fields:
  assumes "only_cache_changed f f'"
  shows "face f' = face f" "max_height f' = max_height f" "base f' = base f"
    "glyph_cache f' = glyph_cache f"
  using assms by (cases f, cases f', simp add: only_cache_changed_def)+

lemma warm_render:
  assumes w: "only_cache_changed example_font_warm f" and mw: "2 \<le> mw"
  shows "\<exists>surf. gr_ttf_render_text f zeroed_surface [0x61] mw = Some (1, surf, f)"
proof -
  note fl = only_cache_changed_fields[OF w]
  have fc: "face f = example_face" using fl(1) by (simp add: example_font_warm_def example_defs)
  have mh: "max_height f = 4" "base f = 4"
    using fl(2,3) by (simp_all add: example_font_warm_def example_defs)
  have gc: "glyph_cache f = [(1, \<lparr>bbox = cbox (example_glyph FT_PIXEL_MODE_GRAY),
                             glyph = example_glyph FT_PIXEL_MODE_GRAY\<rparr>)]"
    using fl(4) by (simp add: example_font_warm_def example_defs)
  have g: "gr_ttf_glyph_cache_get f (Suc 0) =
             (Some \<lparr>bbox = cbox (example_glyph FT_PIXEL_MODE_GRAY),
                     glyph = example_glyph FT_PIXEL_MODE_GRAY\<rparr>, f)"
    by (simp add: gr_ttf_glyph_cache_get_def gc hashmapGet_def)
  have i: "FT_Get_Char_Index (face f) 97 = Suc 0"
    by (simp add: fc example_face_def)
  have z: "0 \<notin> set [0x61 :: byte]" by simp
  have rc: "render_count mw (c_string [0x61]) 0 0 0 (replicate (strlen [0x61]) 0) f
              = Some (1, 2, [1], f)"
    using mw
    by (simp add: c_string_def strlen_def render_count_decode[OF z] i g
          example_glyph_def Let_def drop_bit_eq_div)
  have cp: "map_option fst (gr_ttf_copy_glyph_to_surface
              (zeroed_surface\<lparr>version := sizeof_GGLSurface, width := 2, height := 4,
                 stride := 2, data := replicate 8 0, format := GGL_PIXEL_FORMAT_A_8\<rparr>)
              (example_glyph FT_PIXEL_MODE_GRAY) 0 0 4) = Some 0"
    by code_simp
  then obtain surf where cp': "gr_ttf_copy_glyph_to_surface
              (zeroed_surface\<lparr>version := sizeof_GGLSurface, width := 2, height := 4,
                 stride := 2, data := replicate 8 0, format := GGL_PIXEL_FORMAT_A_8\<rparr>)
              (example_glyph FT_PIXEL_MODE_GRAY) 0 0 4 = Some (0, surf)"
    by auto
  have rg: "render_glyphs [Suc 0] 0 0
              (zeroed_surface\<lparr>version := sizeof_GGLSurface, width := 2, height := 4,
                 stride := 2, data := replicate 8 0, format := GGL_PIXEL_FORMAT_A_8\<rparr>) f
            = Some (2, surf, f)"
    using cp' by (simp add: g mh example_glyph_def drop_bit_eq_div)
  show ?thesis
    using rg by (simp add: gr_ttf_render_text_def render_surface_def rc mh Let_def)
qed

lemma warm_gets:
  assumes "only_cache_changed example_font_warm f"
    and "cache_inv f as"
    and "\<forall>w\<in>set ws. 2 \<le> w"
    and "distinct ws"
    and "\<forall>w\<in>set ws. hashmapGet (string_cache f) (StringCacheKey_of [0x61] w) = None"
  shows "\<exists>rs f'. string_cache_gets f (map (Pair [0x61]) ws) = Some (rs, f') \<and> None \<notin> set rs"
  using assms
proof (induction ws arbitrary: f as)
  case Nil
  show ?case by simp
next
  case (Cons w ws)
  from Cons.prems(3) have w2: "2 \<le> w" by simp
  from Cons.prems(5) have miss: "hashmapGet (string_cache f) (StringCacheKey_of [0x61] w) = None"
    by simp
  from warm_render[OF Cons.prems(1) w2] obtain surf where
    r: "gr_ttf_render_text f zeroed_surface [0x61] w = Some (1, surf, f)" by blast
  from cache_inv_miss[OF Cons.prems(2) miss r] obtain f1 where
    g: "gr_ttf_string_cache_get f [0x61] w = Some (Some (next_free f), f1)"
    and ci: "cache_inv f1 (as @ [next_free f])"
    and sc: "string_cache f1 = hashmapPut (string_cache f) (StringCacheKey_of [0x61] w) (next_free f)"
    and oc: "only_cache_changed f f1"
    by auto
  have w1: "only_cache_changed example_font_warm f1"
    by (rule only_cache_changed_trans[OF Cons.prems(1) oc])
  have m: "\<forall>w'\<in>set ws. hashmapGet (string_cache f1) (StringCacheKey_of [0x61] w') = None"
  proof
    fix w' assume in_ws: "w' \<in> set ws"
    with Cons.prems(4) have "w' \<noteq> w" by auto
    then have "StringCacheKey_of [0x61] w' \<noteq> StringCacheKey_of [0x61] w"
      by (simp add: StringCacheKey_of_def)
    moreover have "hashmapGet (string_cache f) (StringCacheKey_of [0x61] w') = None"
      using Cons.prems(5) in_ws by simp
    ultimately show "hashmapGet (string_cache f1) (StringCacheKey_of [0x61] w') = None"
      by (simp add: sc hashmapGet_def hashmapPut_def update_conv')
  qed
  from Cons.prems(3,4) have p: "\<forall>w\<in>set ws. 2 \<le> w" "distinct ws" by simp_all
  from Cons.IH[OF w1 ci p m] obtain rs f' where
    "string_cache_gets f1 (map (Pair [0x61]) ws) = Some (rs, f')" "None \<notin> set rs"
    by blast
  with g show ?case by simp
qed

lemma example_cache_401:
  "\<exists>rs font.
      string_cache_gets example_font_warm (map (Pair [0x61]) (map int [2 ..< 403])) = Some (rs, font)
    \<and> cache_inv font [0 ..< 401]
    \<and> hashmapGet (string_cache font) (StringCacheKey_of [0x61] 2) = Some 0"
proof -
  let ?ws = "map int [2 ..< 403]"
  let ?ks = "map (Pair [0x61]) ?ws"
  have w: "only_cache_changed example_font_warm example_font_warm" by simp
  have ci: "cache_inv example_font_warm []"
    by (simp add: cache_inv_def map_inv_def example_font_warm_def example_defs)
  have nf: "next_free example_font_warm = 0" "string_cache example_font_warm = []"
    by (simp_all add: example_font_warm_def example_defs)
  have ge: "\<forall>w\<in>set ?ws. 2 \<le> w" by (auto simp del: upt_rec_numeral)
  have di: "distinct ?ws" by (simp add: distinct_map del: upt_rec_numeral)
  have mi: "\<forall>w\<in>set ?ws.
              hashmapGet (string_cache example_font_warm) (StringCacheKey_of [0x61] w) = None"
    by (simp add: nf hashmapGet_def del: upt_rec_numeral)
  from warm_gets[OF w ci ge di mi] obtain rs font where
    g: "string_cache_gets example_font_warm ?ks = Some (rs, font)" and n: "None \<notin> set rs"
    by blast
  have dk: "distinct (map (\<lambda>(t, w). StringCacheKey_of t w) ?ks)"
    by (simp add: distinct_map comp_def inj_on_def StringCacheKey_of_def del: upt_rec_numeral)
  have pk: "\<forall>(t, w)\<in>set ?ks.
              hashmapGet (string_cache example_font_warm) (StringCacheKey_of t w) = None"
    by (simp add: nf hashmapGet_def del: upt_rec_numeral)
  have len: "length ?ks = 401" by (simp del: upt_rec_numeral)
  from string_cache_gets_misses[OF ci dk pk g n]
  have c: "cache_inv font [0 ..< 401]"
    and ky: "\<forall>i<401. map_option key (entries font (0 + i))
                       = Some ((\<lambda>(t, w). StringCacheKey_of t w) (?ks ! i))"
    unfolding len nf by (simp_all del: upt_rec_numeral)
  from ky[rule_format, of 0]
  have k0: "map_option key (entries font 0) = Some (StringCacheKey_of [0x61] 2)"
    by (simp add: nth_map del: upt_rec_numeral)
  have "(0 :: nat) \<in> set [0 ..< 401]" by (simp del: upt_rec_numeral)
  from cache_inv_lookup[OF c this] obtain e where
    "entries font 0 = Some e" "hashmapGet (string_cache font) (key e) = Some 0"
    by blast
  with k0 have "hashmapGet (string_cache font) (StringCacheKey_of [0x61] 2) = Some 0"
    by simp
  with g c show ?thesis by blast
qed

lemma example_cached_inv: "cache_inv example_cached [0, 1, 2]"
  by code_simp

lemma example_cached_hit:
  "hashmapGet (string_cache example_cached) (StringCacheKey_of [0x61] (- 1)) = Some 0"
  by code_simp



text \<open>
  C1. A call of \<^verbatim>\<open>gr_ttf_string_cache_get\<close> that does not find its key renders the string and
  appends the entry; it never evicts (the eviction at lines 515-531 stands in the branch of a
  hit on an entry that is not the tail). So when any number of distinct keys that the cache
  does not hold are looked up one after the other and rendered, the cache grows by that
  number, every entry it held before is still there, and the new entries follow in the order
  of the calls. For the 401 keys \<open>("a", 2), \<dots>, ("a", 402)\<close> and an empty string cache the
  cache holds 401 entries afterwards, one more than \<^verbatim>\<open>STRING_CACHE_MAX_ENTRIES\<close>, and no
  eviction has taken place.
\<close>

theorem string_cache_misses_never_evict:
  assumes "cache_inv font as"
    and "distinct (map (\<lambda>(t, w). StringCacheKey_of t w) ks)"
    and "\<forall>(t, w)\<in>set ks. gr_ttf_string_cache_peek font t w = None"
    and "string_cache_gets font ks = Some (rs, font')"
    and "None \<notin> set rs"
  shows "hashmapSize (string_cache font') = hashmapSize (string_cache font) + length ks
       \<and> rs = map Some [next_free font ..< next_free font + length ks]
       \<and> cache_inv font' (as @ [next_free font ..< next_free font + length ks])
       \<and> (\<forall>c\<in>set as. entries font' c \<noteq> None
             \<and> map_option payload (entries font' c) = map_option payload (entries font c))
       \<and> (\<forall>i<length ks. gr_ttf_string_cache_peek font' (fst (ks ! i)) (snd (ks ! i))
                              = Some (next_free font + i))"
proof -
  from assms(3)
  have m: "\<forall>(t, w)\<in>set ks. hashmapGet (string_cache font) (StringCacheKey_of t w) = None"
    by (simp add: gr_ttf_string_cache_peek_def)
  from string_cache_gets_misses[OF assms(1,2) m assms(4,5)]
  have rs: "rs = map Some [next_free font ..< next_free font + length ks]"
    and ci: "cache_inv font' (as @ [next_free font ..< next_free font + length ks])"
    and pl: "\<forall>c. c < next_free font \<longrightarrow>
             map_option payload (entries font' c) = map_option payload (entries font c)"
    and ky: "\<forall>i<length ks. map_option key (entries font' (next_free font + i))
                              = Some ((\<lambda>(t, w). StringCacheKey_of t w) (ks ! i))"
    by blast+
  from assms(1) have d: "distinct as" and mi: "map_inv (string_cache font) (entries font) as"
    and b: "\<forall>a\<in>set as. a < next_free font"
    by (simp_all add: cache_inv_def)
  from ci have d': "distinct (as @ [next_free font ..< next_free font + length ks])"
    and mi': "map_inv (string_cache font') (entries font')
                (as @ [next_free font ..< next_free font + length ks])"
    by (simp_all add: cache_inv_def)
  have sz: "hashmapSize (string_cache font') = hashmapSize (string_cache font) + length ks"
    using map_inv_length[OF mi d] map_inv_length[OF mi' d'] by simp
  have keep: "\<forall>c\<in>set as. entries font' c \<noteq> None
             \<and> map_option payload (entries font' c) = map_option payload (entries font c)"
  proof
    fix c assume c: "c \<in> set as"
    then have "c \<in> set (as @ [next_free font ..< next_free font + length ks])" by simp
    from cache_inv_lookup[OF ci this] have "entries font' c \<noteq> None" by auto
    moreover from c b pl
    have "map_option payload (entries font' c) = map_option payload (entries font c)" by blast
    ultimately show "entries font' c \<noteq> None
             \<and> map_option payload (entries font' c) = map_option payload (entries font c)" ..
  qed
  have found: "\<forall>i<length ks. gr_ttf_string_cache_peek font' (fst (ks ! i)) (snd (ks ! i))
                              = Some (next_free font + i)"
  proof (intro allI impI)
    fix i assume i: "i < length ks"
    then have "next_free font + i \<in> set (as @ [next_free font ..< next_free font + length ks])"
      by simp
    from cache_inv_lookup[OF ci this] obtain e where
      e: "entries font' (next_free font + i) = Some e"
         "hashmapGet (string_cache font') (key e) = Some (next_free font + i)"
      by blast
    from ky i e(1) have "key e = (\<lambda>(t, w). StringCacheKey_of t w) (ks ! i)" by auto
    with e(2) show "gr_ttf_string_cache_peek font' (fst (ks ! i)) (snd (ks ! i))
                      = Some (next_free font + i)"
      by (simp add: gr_ttf_string_cache_peek_def case_prod_beta)
  qed
  from sz rs ci keep found show ?thesis by blast
qed

theorem string_cache_misses_never_evict_witness:
  "\<exists>rs font'.
      string_cache_gets example_font_warm (map (Pair [0x61]) (map int [2 ..< 403])) = Some (rs, font')
    \<and> rs = map Some [0 ..< 401]
    \<and> hashmapSize (string_cache font') = 401
    \<and> cache_inv font' [0 ..< 401]
    \<and> gr_ttf_string_cache_peek font' [0x61] 2 = Some 0"
proof -
  let ?ws = "map int [2 ..< 403]"
  let ?ks = "map (Pair [0x61]) ?ws"
  have w: "only_cache_changed example_font_warm example_font_warm" by simp
  have ci: "cache_inv example_font_warm []"
    by (simp add: cache_inv_def map_inv_def example_font_warm_def example_defs)
  have nf: "next_free example_font_warm = 0" "string_cache example_font_warm = []"
    by (simp_all add: example_font_warm_def example_defs)
  have ge: "\<forall>w\<in>set ?ws. 2 \<le> w" by (auto simp del: upt_rec_numeral)
  have di: "distinct ?ws" by (simp add: distinct_map del: upt_rec_numeral)
  have mi: "\<forall>w\<in>set ?ws.
              hashmapGet (string_cache example_font_warm) (StringCacheKey_of [0x61] w) = None"
    by (simp add: nf hashmapGet_def del: upt_rec_numeral)
  from warm_gets[OF w ci ge di mi] obtain rs font' where
    g: "string_cache_gets example_font_warm ?ks = Some (rs, font')" and n: "None \<notin> set rs"
    by blast
  have dk: "distinct (map (\<lambda>(t, w). StringCacheKey_of t w) ?ks)"
    by (simp add: distinct_map comp_def inj_on_def StringCacheKey_of_def del: upt_rec_numeral)
  have pk: "\<forall>(t, w)\<in>set ?ks. gr_ttf_string_cache_peek example_font_warm t w = None"
    by (simp add: gr_ttf_string_cache_peek_def nf hashmapGet_def del: upt_rec_numeral)
  have len: "length ?ks = 401" by (simp del: upt_rec_numeral)
  from string_cache_misses_never_evict[OF ci dk pk g n]
  have "hashmapSize (string_cache font') = 401" "rs = map Some [0 ..< 401]"
    "cache_inv font' [0 ..< 401]"
    and p: "\<forall>i<401. gr_ttf_string_cache_peek font' (fst (?ks ! i)) (snd (?ks ! i)) = Some (0 + i)"
    unfolding len nf by (simp_all add: hashmapSize_def del: upt_rec_numeral)
  moreover from p[rule_format, of 0] have "gr_ttf_string_cache_peek font' [0x61] 2 = Some 0"
    by (simp add: nth_map del: upt_rec_numeral)
  ultimately show ?thesis using g by blast
qed

end
